theory Spec2Isabelle
  imports Main "HOL-Library.Monad_Syntax"
begin

section \<open>Data model\<close>

text \<open>
  A Go \<^verbatim>\<open>*Node[K, V]\<close> is either \<^verbatim>\<open>nil\<close> or the address of a node struct. The tree
  owns its nodes exclusively through \<^verbatim>\<open>left\<close>/\<^verbatim>\<open>right\<close>, so the owned graph is
  modelled as a datatype whose every node carries its own address (its pointer identity)
  next to the seven fields of the struct, in the struct's order. The non-owning
  \<^verbatim>\<open>parent\<close> link is kept as what it is, an optional address. Pointer comparison
  is comparison of addresses; following a \<^verbatim>\<open>parent\<close> link is a lookup of the
  address among the nodes of the tree.

  Every write of the code reaches the node it writes through \<^verbatim>\<open>left\<close>/\<^verbatim>\<open>right\<close>
  from the node in hand (\<^verbatim>\<open>y.left.parent = z\<close>, \<^verbatim>\<open>child.parent = n.parent\<close>); a
  \<^verbatim>\<open>parent\<close> link is only ever read. So updating the owned copy of a node is the
  update of the node, and the one thing a \<^verbatim>\<open>parent\<close> link can alias, the node at that
  address, is found by its address.

  Keys are \<^verbatim>\<open>cmp.Ordered\<close> with a total order (a \<open>linorder\<close>). \<^verbatim>\<open>height\<close> and
  \<^verbatim>\<open>size\<close> are Go \<^verbatim>\<open>int\<close> (64 bit); they count nodes of a tree held in memory
  and cannot overflow, so they are \<open>int\<close>.

  A dereference of \<^verbatim>\<open>nil\<close> panics in Go: every function that may do so returns an
  \<open>option\<close>, \<open>None\<close> being the panic.
\<close>

type_synonym addr = nat

datatype ('k, 'v) node =
    Nil
  | Node (addr: addr) (key: 'k) (val: 'v) (hgt: int) (siz: int)
         (left: "('k, 'v) node") (right: "('k, 'v) node") (parent: "addr option")

record ('k, 'v) tree =
  Root :: "('k, 'v) node"

definition New :: "('k, 'v) tree" where
  "New = \<lparr>Root = Nil\<rparr>"

definition Clear :: "('k, 'v) tree \<Rightarrow> ('k, 'v) tree" where
  "Clear t = t\<lparr>Root := Nil\<rparr>"

section \<open>Structural maintenance\<close>

fun height :: "('k, 'v) node \<Rightarrow> int" where
  "height Nil = 0"
| "height (Node a k v h s l r p) = h"

text \<open>\<^verbatim>\<open>if c != nil { c.parent = p }\<close>\<close>

fun setParent :: "addr option \<Rightarrow> ('k, 'v) node \<Rightarrow> ('k, 'v) node" where
  "setParent p Nil = Nil"
| "setParent p (Node a k v h s l r q) = Node a k v h s l r p"

fun updateSize :: "('k, 'v) node \<Rightarrow> ('k, 'v) node option" where
  "updateSize Nil = None"
| "updateSize (Node a k v h s l r p) =
     Some (Node a k v (max (height l) (height r) + 1)
             ((1 + (if l \<noteq> Nil then siz l else 0)) + (if r \<noteq> Nil then siz r else 0))
             l r p)"

fun balanceFactor :: "('k, 'v) node \<Rightarrow> int option" where
  "balanceFactor Nil = None"
| "balanceFactor (Node a k v h s l r p) = Some (height l - height r)"

text \<open>
  \<^verbatim>\<open>rotateLeft(z)\<close>: \<open>y = z.right\<close> becomes the root of the subtree. The node \<open>z\<close>
  that ends up as \<open>y.left\<close> is \<open>z\<close> after all its updates (new right child, new
  parent, refreshed metadata), since \<open>y.left\<close> is a pointer to it.
\<close>

fun rotateLeft :: "('k, 'v) node \<Rightarrow> ('k, 'v) node option" where
  "rotateLeft (Node za zk zv zh zs zl (Node ya yk yv yh ys yl yr yp) zp) =
     do {
       z' \<leftarrow> updateSize (Node za zk zv zh zs zl (setParent (Some za) yl) (Some ya));
       updateSize (Node ya yk yv yh ys z' yr zp)
     }"
| "rotateLeft _ = None"

fun rotateRight :: "('k, 'v) node \<Rightarrow> ('k, 'v) node option" where
  "rotateRight (Node za zk zv zh zs (Node ya yk yv yh ys yl yr yp) zr zp) =
     do {
       z' \<leftarrow> updateSize (Node za zk zv zh zs (setParent (Some za) yr) zr (Some ya));
       updateSize (Node ya yk yv yh ys yl z' zp)
     }"
| "rotateRight _ = None"

text \<open>\<^verbatim>\<open>n.left = l\<close> and \<^verbatim>\<open>n.right = r\<close> on a node that is not nil.\<close>

fun setLeft :: "('k, 'v) node \<Rightarrow> ('k, 'v) node \<Rightarrow> ('k, 'v) node" where
  "setLeft l' Nil = Nil"
| "setLeft l' (Node a k v h s l r p) = Node a k v h s l' r p"

fun setRight :: "('k, 'v) node \<Rightarrow> ('k, 'v) node \<Rightarrow> ('k, 'v) node" where
  "setRight r' Nil = Nil"
| "setRight r' (Node a k v h s l r p) = Node a k v h s l r' p"

definition rebalance :: "('k, 'v) node \<Rightarrow> ('k, 'v) node option" where
  "rebalance n0 =
     do {
       n \<leftarrow> updateSize n0;
       balance \<leftarrow> balanceFactor n;
       if balance > 1 then
         do {
           bl \<leftarrow> balanceFactor (left n);
           n1 \<leftarrow> (if bl < 0 then
                    do { l \<leftarrow> rotateLeft (left n); Some (setLeft l n) }
                  else Some n);
           rotateRight n1
         }
       else if balance < - 1 then
         do {
           br \<leftarrow> balanceFactor (right n);
           n1 \<leftarrow> (if br > 0 then
                    do { r \<leftarrow> rotateRight (right n); Some (setRight r n) }
                  else Some n);
           rotateLeft n1
         }
       else Some n
     }"

fun minNode :: "('k, 'v) node \<Rightarrow> ('k, 'v) node option" where
  "minNode Nil = None"
| "minNode (Node a k v h s l r p) =
     (if l \<noteq> Nil then minNode l else Some (Node a k v h s l r p))"

fun maxNode :: "('k, 'v) node \<Rightarrow> ('k, 'v) node option" where
  "maxNode Nil = None"
| "maxNode (Node a k v h s l r p) =
     (if r \<noteq> Nil then maxNode r else Some (Node a k v h s l r p))"

section \<open>Mutators\<close>

text \<open>
  \<^verbatim>\<open>insertRec\<close>. The first argument is the address the allocator returns for
  \<^verbatim>\<open>&Node{...}\<close>, should the descent reach an absent position.
\<close>

fun insertRec ::
  "addr \<Rightarrow> ('k::linorder, 'v) node \<Rightarrow> 'k \<Rightarrow> 'v \<Rightarrow> addr option \<Rightarrow> (('k, 'v) node \<times> bool) option"
where
  "insertRec new Nil k' v' par = Some (Node new k' v' 1 1 Nil Nil par, True)"
| "insertRec new (Node a k v h s l r p) k' v' par =
     (if k' < k then
        do {
          (l', inserted) \<leftarrow> insertRec new l k' v' (Some a);
          n' \<leftarrow> rebalance (Node a k v h s l' r p);
          Some (n', inserted)
        }
      else if k' > k then
        do {
          (r', inserted) \<leftarrow> insertRec new r k' v' (Some a);
          n' \<leftarrow> rebalance (Node a k v h s l r' p);
          Some (n', inserted)
        }
      else Some (Node a k v' h s l r p, False))"

text \<open>
  \<^verbatim>\<open>deleteRec\<close>. In the two-child case the loop
  \<^verbatim>\<open>for successor.left != nil\<close> from \<open>n.right\<close> is the loop of \<^verbatim>\<open>minNode\<close>.
\<close>

fun deleteRec ::
  "('k::linorder, 'v) node \<Rightarrow> 'k \<Rightarrow> (('k, 'v) node \<times> bool) option"
where
  "deleteRec Nil k' = Some (Nil, False)"
| "deleteRec (Node a k v h s l r p) k' =
     (if k' < k then
        do {
          (l', deleted) \<leftarrow> deleteRec l k';
          n' \<leftarrow> rebalance (Node a k v h s l' r p);
          Some (n', deleted)
        }
      else if k' > k then
        do {
          (r', deleted) \<leftarrow> deleteRec r k';
          n' \<leftarrow> rebalance (Node a k v h s l r' p);
          Some (n', deleted)
        }
      else if l = Nil \<or> r = Nil then
        (let child = (if l \<noteq> Nil then l else r)
         in Some (setParent p child, True))
      else
        do {
          successor \<leftarrow> minNode r;
          (r', _) \<leftarrow> deleteRec r (key successor);
          n' \<leftarrow> rebalance (Node a (key successor) (val successor) h s l r' p);
          Some (n', True)
        })"

definition Insert ::
  "addr \<Rightarrow> ('k::linorder, 'v) tree \<Rightarrow> 'k \<Rightarrow> 'v \<Rightarrow> (('k, 'v) tree \<times> bool) option"
where
  "Insert new t k' v' =
     do {
       (root, inserted) \<leftarrow> insertRec new (Root t) k' v' None;
       Some (t\<lparr>Root := root\<rparr>, inserted)
     }"

definition Delete ::
  "('k::linorder, 'v) tree \<Rightarrow> 'k \<Rightarrow> (('k, 'v) tree \<times> bool) option"
where
  "Delete t k' =
     do {
       (root, deleted) \<leftarrow> deleteRec (Root t) k';
       Some (t\<lparr>Root := setParent None root\<rparr>, deleted)
     }"

section \<open>Point and bounded queries\<close>

text \<open>
  Each query is a loop over \<open>cur\<close> (and \<open>result\<close>); the loop is the recursive
  function, the query starts it at the root. A result is the pair the Go function
  returns: the node pointer (\<open>Nil\<close> for \<^verbatim>\<open>nil\<close>) and the found flag.
\<close>

fun search_loop :: "('k::linorder, 'v) node \<Rightarrow> 'k \<Rightarrow> ('k, 'v) node \<times> bool" where
  "search_loop Nil k' = (Nil, False)"
| "search_loop (Node a k v h s l r p) k' =
     (if k' < k then search_loop l k'
      else if k' > k then search_loop r k'
      else (Node a k v h s l r p, True))"

definition Search :: "('k::linorder, 'v) tree \<Rightarrow> 'k \<Rightarrow> ('k, 'v) node \<times> bool" where
  "Search t k' = search_loop (Root t) k'"

definition Min :: "('k, 'v) tree \<Rightarrow> (('k, 'v) node \<times> bool) option" where
  "Min t = (if Root t = Nil then Some (Nil, False)
            else do { m \<leftarrow> minNode (Root t); Some (m, True) })"

definition Max :: "('k, 'v) tree \<Rightarrow> (('k, 'v) node \<times> bool) option" where
  "Max t = (if Root t = Nil then Some (Nil, False)
            else do { m \<leftarrow> maxNode (Root t); Some (m, True) })"

fun ceiling_loop ::
  "('k::linorder, 'v) node \<Rightarrow> ('k, 'v) node \<Rightarrow> 'k \<Rightarrow> ('k, 'v) node \<times> bool" where
  "ceiling_loop Nil result k' = (result, result \<noteq> Nil)"
| "ceiling_loop (Node a k v h s l r p) result k' =
     (if k' = k then (Node a k v h s l r p, True)
      else if k' < k then ceiling_loop l (Node a k v h s l r p) k'
      else ceiling_loop r result k')"

definition Ceiling :: "('k::linorder, 'v) tree \<Rightarrow> 'k \<Rightarrow> ('k, 'v) node \<times> bool" where
  "Ceiling t k' = ceiling_loop (Root t) Nil k'"

fun floor_loop ::
  "('k::linorder, 'v) node \<Rightarrow> ('k, 'v) node \<Rightarrow> 'k \<Rightarrow> ('k, 'v) node \<times> bool" where
  "floor_loop Nil result k' = (result, result \<noteq> Nil)"
| "floor_loop (Node a k v h s l r p) result k' =
     (if k' = k then (Node a k v h s l r p, True)
      else if k' < k then floor_loop l result k'
      else floor_loop r (Node a k v h s l r p) k')"

definition Floor :: "('k::linorder, 'v) tree \<Rightarrow> 'k \<Rightarrow> ('k, 'v) node \<times> bool" where
  "Floor t k' = floor_loop (Root t) Nil k'"

fun higher_loop ::
  "('k::linorder, 'v) node \<Rightarrow> ('k, 'v) node \<Rightarrow> 'k \<Rightarrow> ('k, 'v) node \<times> bool" where
  "higher_loop Nil result k' = (result, result \<noteq> Nil)"
| "higher_loop (Node a k v h s l r p) result k' =
     (if k' < k then higher_loop l (Node a k v h s l r p) k'
      else higher_loop r result k')"

definition Higher :: "('k::linorder, 'v) tree \<Rightarrow> 'k \<Rightarrow> ('k, 'v) node \<times> bool" where
  "Higher t k' = higher_loop (Root t) Nil k'"

fun lower_loop ::
  "('k::linorder, 'v) node \<Rightarrow> ('k, 'v) node \<Rightarrow> 'k \<Rightarrow> ('k, 'v) node \<times> bool" where
  "lower_loop Nil result k' = (result, result \<noteq> Nil)"
| "lower_loop (Node a k v h s l r p) result k' =
     (if k' \<le> k then lower_loop l result k'
      else lower_loop r (Node a k v h s l r p) k')"

definition Lower :: "('k::linorder, 'v) tree \<Rightarrow> 'k \<Rightarrow> ('k, 'v) node \<times> bool" where
  "Lower t k' = lower_loop (Root t) Nil k'"

text \<open>
  \<^verbatim>\<open>Predecessor\<close> and \<^verbatim>\<open>Successor\<close> follow \<^verbatim>\<open>parent\<close> links. The store in which
  a link is dereferenced is the set of nodes of the tree the node belongs to:
  \<open>findNode\<close> reads the node at an address. A link that leads to no node of the tree
  gives \<open>None\<close>, as does a chain of links that never ends.
\<close>

fun findNode :: "('k, 'v) node \<Rightarrow> addr \<Rightarrow> ('k, 'v) node option" where
  "findNode Nil a' = None"
| "findNode (Node a k v h s l r p) a' =
     (if a = a' then Some (Node a k v h s l r p)
      else (case findNode l a' of Some m \<Rightarrow> Some m | None \<Rightarrow> findNode r a'))"

text \<open>\<^verbatim>\<open>n == c\<close> for a node \<open>n\<close> that is not nil: the same address.\<close>

fun samePtr :: "('k, 'v) node \<Rightarrow> ('k, 'v) node \<Rightarrow> bool" where
  "samePtr n Nil = False"
| "samePtr n (Node a k v h s l r p) = (addr n = a)"

partial_function (option) successor_loop ::
  "('k, 'v) node \<Rightarrow> ('k, 'v) node \<Rightarrow> addr option \<Rightarrow> (('k, 'v) node \<times> bool) option"
where
  "successor_loop root n p =
     (case p of
        None \<Rightarrow> Some (Nil, False)
      | Some pa \<Rightarrow>
          (case findNode root pa of
             None \<Rightarrow> None
           | Some pn \<Rightarrow>
               if samePtr n (right pn) then successor_loop root pn (parent pn)
               else Some (pn, True)))"

partial_function (option) predecessor_loop ::
  "('k, 'v) node \<Rightarrow> ('k, 'v) node \<Rightarrow> addr option \<Rightarrow> (('k, 'v) node \<times> bool) option"
where
  "predecessor_loop root n p =
     (case p of
        None \<Rightarrow> Some (Nil, False)
      | Some pa \<Rightarrow>
          (case findNode root pa of
             None \<Rightarrow> None
           | Some pn \<Rightarrow>
               if samePtr n (left pn) then predecessor_loop root pn (parent pn)
               else Some (pn, True)))"

definition Successor ::
  "('k, 'v) tree \<Rightarrow> ('k, 'v) node \<Rightarrow> (('k, 'v) node \<times> bool) option" where
  "Successor t n =
     (case n of
        Nil \<Rightarrow> None
      | Node a k v h s l r p \<Rightarrow>
          if r \<noteq> Nil then do { m \<leftarrow> minNode r; Some (m, True) }
          else successor_loop (Root t) n p)"

definition Predecessor ::
  "('k, 'v) tree \<Rightarrow> ('k, 'v) node \<Rightarrow> (('k, 'v) node \<times> bool) option" where
  "Predecessor t n =
     (case n of
        Nil \<Rightarrow> None
      | Node a k v h s l r p \<Rightarrow>
          if l \<noteq> Nil then do { m \<leftarrow> maxNode l; Some (m, True) }
          else predecessor_loop (Root t) n p)"

section \<open>Iteration\<close>

text \<open>
  The iterators are modelled by the sequence of node copies they yield to a consumer
  that never stops them. The stack is a list whose last element is the top, as the
  slice is. \<open>push_left\<close> is the inner loop.
\<close>

fun push_left :: "('k, 'v) node \<Rightarrow> ('k, 'v) node list \<Rightarrow> ('k, 'v) node list" where
  "push_left Nil stack = stack"
| "push_left (Node a k v h s l r p) stack = push_left l (stack @ [Node a k v h s l r p])"

text \<open>The number of nodes of a subtree.\<close>

fun nodes :: "('k, 'v) node \<Rightarrow> nat" where
  "nodes Nil = 0"
| "nodes (Node a k v h s l r p) = Suc (nodes l + nodes r)"

text \<open>
  The work left to an iterator, which each turn of its outer loop makes smaller: the
  nodes below \<open>cur\<close>, and for each node on the stack the node itself and the nodes of
  its right subtree.
\<close>

definition pending :: "('k, 'v) node list \<Rightarrow> nat" where
  "pending stack = (\<Sum>m\<leftarrow>stack. Suc (nodes (right m)))"

function inorder_loop :: "('k, 'v) node \<Rightarrow> ('k, 'v) node list \<Rightarrow> ('k, 'v) node list" where
  "inorder_loop cur stack =
     (if cur \<noteq> Nil \<or> stack \<noteq> [] then
        last (push_left cur stack)
          # inorder_loop (right (last (push_left cur stack))) (butlast (push_left cur stack))
      else [])"
  by pat_completeness auto
termination
proof (relation "measure (\<lambda>(cur, stack). nodes cur + pending stack)")
  show "wf (measure (\<lambda>(cur, stack). nodes cur + pending stack))"
    by simp
next
  fix cur :: "('k, 'v) node" and stack :: "('k, 'v) node list"
  have pushed: "pending (push_left c st) = pending st + nodes c"
    for c :: "('k, 'v) node" and st
    by (induction c st rule: push_left.induct) (simp_all add: pending_def)
  have nonempty: "push_left c st \<noteq> []" if "c \<noteq> Nil \<or> st \<noteq> []"
    for c :: "('k, 'v) node" and st
    using that by (induction c st rule: push_left.induct) simp_all
  have popped: "nodes (right (last st)) + pending (butlast st) < pending st" if "st \<noteq> []"
    for st :: "('k, 'v) node list"
    using that by (induction st rule: rev_induct) (simp_all add: pending_def)
  assume "cur \<noteq> Nil \<or> stack \<noteq> []"
  then have "push_left cur stack \<noteq> []"
    by (rule nonempty)
  from popped [OF this]
  show "((right (last (push_left cur stack)), butlast (push_left cur stack)), cur, stack)
          \<in> measure (\<lambda>(cur, stack). nodes cur + pending stack)"
    by (simp add: pushed)
qed

declare inorder_loop.simps [simp del]

definition InOrder :: "('k, 'v) tree \<Rightarrow> ('k, 'v) node list" where
  "InOrder t = inorder_loop (Root t) []"

function range_loop ::
  "('k::linorder, 'v) node \<Rightarrow> ('k, 'v) node list \<Rightarrow> 'k \<Rightarrow> 'k \<Rightarrow> ('k, 'v) node list" where
  "range_loop cur stack from to =
     (if cur \<noteq> Nil \<or> stack \<noteq> [] then
        (if key (last (push_left cur stack)) \<ge> from \<and> key (last (push_left cur stack)) < to
         then [last (push_left cur stack)] else [])
        @ range_loop
            (if key (last (push_left cur stack)) \<ge> to then Nil
             else right (last (push_left cur stack)))
            (butlast (push_left cur stack)) from to
      else [])"
  by pat_completeness auto
termination
proof (relation "measure (\<lambda>(cur, stack, from, to). nodes cur + pending stack)")
  show "wf (measure (\<lambda>(cur, stack, from, to). nodes cur + pending stack))"
    by simp
next
  fix cur :: "('k::linorder, 'v) node" and stack :: "('k, 'v) node list" and "from" to :: 'k
  have pushed: "pending (push_left c st) = pending st + nodes c"
    for c :: "('k, 'v) node" and st
    by (induction c st rule: push_left.induct) (simp_all add: pending_def)
  have nonempty: "push_left c st \<noteq> []" if "c \<noteq> Nil \<or> st \<noteq> []"
    for c :: "('k, 'v) node" and st
    using that by (induction c st rule: push_left.induct) simp_all
  have popped: "nodes (right (last st)) + pending (butlast st) < pending st" if "st \<noteq> []"
    for st :: "('k, 'v) node list"
    using that by (induction st rule: rev_induct) (simp_all add: pending_def)
  assume "cur \<noteq> Nil \<or> stack \<noteq> []"
  then have "push_left cur stack \<noteq> []"
    by (rule nonempty)
  from popped [OF this]
  show "((if to \<le> key (last (push_left cur stack)) then Nil
          else right (last (push_left cur stack)),
          butlast (push_left cur stack), from, to), cur, stack, from, to)
          \<in> measure (\<lambda>(cur, stack, from, to). nodes cur + pending stack)"
    by (simp add: pushed)
qed

declare range_loop.simps [simp del]

definition Range :: "('k::linorder, 'v) tree \<Rightarrow> 'k \<Rightarrow> 'k \<Rightarrow> ('k, 'v) node list" where
  "Range t from to = range_loop (Root t) [] from to"

section \<open>Order statistics\<close>

fun rank_loop :: "('k::linorder, 'v) node \<Rightarrow> int \<Rightarrow> 'k \<Rightarrow> int" where
  "rank_loop Nil rank k' = rank"
| "rank_loop (Node a k v h s l r p) rank k' =
     (if k' < k then rank_loop l rank k'
      else
        (let leftSize = (if l \<noteq> Nil then siz l else 0)
         in if k' = k then rank + leftSize
            else rank_loop r (rank + (leftSize + 1)) k'))"

definition Rank :: "('k::linorder, 'v) tree \<Rightarrow> 'k \<Rightarrow> int" where
  "Rank t k' = rank_loop (Root t) 0 k'"

fun kth_loop :: "('k, 'v) node \<Rightarrow> int \<Rightarrow> ('k, 'v) node \<times> bool" where
  "kth_loop Nil i = (Nil, False)"
| "kth_loop (Node a k v h s l r p) i =
     (let leftSize = (if l \<noteq> Nil then siz l else 0)
      in if i < leftSize then kth_loop l i
         else if i > leftSize then kth_loop r (i - (leftSize + 1))
         else (Node a k v h s l r p, True))"

definition Kth :: "('k, 'v) tree \<Rightarrow> int \<Rightarrow> ('k, 'v) node \<times> bool" where
  "Kth t i = kth_loop (Root t) i"

definition Len :: "('k, 'v) tree \<Rightarrow> int" where
  "Len t = (if Root t = Nil then 0 else siz (Root t))"

section \<open>Invariants of the data model\<close>

text \<open>
  \<open>inorder\<close> lists the nodes of a subtree from left to right. \<open>sizeOf\<close> is the
  size of a possibly absent child (0 when absent), \<open>height\<close> above its height.
\<close>

fun inorder :: "('k, 'v) node \<Rightarrow> ('k, 'v) node list" where
  "inorder Nil = []"
| "inorder (Node a k v h s l r p) = inorder l @ Node a k v h s l r p # inorder r"

definition keys :: "('k, 'v) node \<Rightarrow> 'k list" where
  "keys n = map key (inorder n)"

definition addrs :: "('k, 'v) node \<Rightarrow> addr list" where
  "addrs n = map addr (inorder n)"

definition entries :: "('k, 'v) node \<Rightarrow> ('k \<times> 'v) list" where
  "entries n = map (\<lambda>m. (key m, val m)) (inorder n)"

fun sizeOf :: "('k, 'v) node \<Rightarrow> int" where
  "sizeOf Nil = 0"
| "sizeOf (Node a k v h s l r p) = s"

text \<open>AVL balance: \<open>height(left) - height(right)\<close> is -1, 0 or 1 at every node.\<close>

fun balanced :: "('k, 'v) node \<Rightarrow> bool" where
  "balanced Nil = True"
| "balanced (Node a k v h s l r p) =
     (\<bar>height l - height r\<bar> \<le> 1 \<and> balanced l \<and> balanced r)"

text \<open>Height recurrence: \<open>height(n) = 1 + max(height(left), height(right))\<close>.\<close>

fun heights_ok :: "('k, 'v) node \<Rightarrow> bool" where
  "heights_ok Nil = True"
| "heights_ok (Node a k v h s l r p) =
     (h = 1 + max (height l) (height r) \<and> heights_ok l \<and> heights_ok r)"

text \<open>Size recurrence: \<open>size(n) = 1 + size(left) + size(right)\<close>.\<close>

fun sizes_ok :: "('k, 'v) node \<Rightarrow> bool" where
  "sizes_ok Nil = True"
| "sizes_ok (Node a k v h s l r p) =
     (s = 1 + sizeOf l + sizeOf r \<and> sizes_ok l \<and> sizes_ok r)"

text \<open>
  Back-reference consistency of a subtree whose root hangs below \<open>q\<close> (\<open>None\<close> for
  the root of the tree): the root's parent is \<open>q\<close>, and each child's parent is the
  node it is a child of.
\<close>

fun parents_ok :: "addr option \<Rightarrow> ('k, 'v) node \<Rightarrow> bool" where
  "parents_ok q Nil = True"
| "parents_ok q (Node a k v h s l r p) =
     (p = q \<and> parents_ok (Some a) l \<and> parents_ok (Some a) r)"

text \<open>BST ordering, as the in-order key sequence being strictly ascending.\<close>

definition bst :: "('k::linorder, 'v) node \<Rightarrow> bool" where
  "bst n = sorted_wrt (<) (keys n)"

text \<open>
  A well-formed subtree below \<open>q\<close>: all invariants of the data model, and no two nodes
  at the same address. A well-formed tree is a well-formed subtree below nothing.
\<close>

definition invar :: "addr option \<Rightarrow> ('k::linorder, 'v) node \<Rightarrow> bool" where
  "invar q n \<longleftrightarrow>
     bst n \<and> balanced n \<and> heights_ok n \<and> sizes_ok n \<and> parents_ok q n \<and> distinct (addrs n)"

definition wf_tree :: "('k::linorder, 'v) tree \<Rightarrow> bool" where
  "wf_tree t = invar None (Root t)"

text \<open>
  The trees a program can hold: the empty tree, and what \<^verbatim>\<open>Insert\<close> and \<^verbatim>\<open>Delete\<close>
  return on such a tree. The allocator gives \<^verbatim>\<open>Insert\<close> an address no node of the
  tree has.
\<close>

inductive reachable :: "('k::linorder, 'v) tree \<Rightarrow> bool" where
  reachable_New: "reachable New"
| reachable_Insert:
    "reachable t \<Longrightarrow> new \<notin> set (addrs (Root t)) \<Longrightarrow> Insert new t k' v' = Some (t', b)
       \<Longrightarrow> reachable t'"
| reachable_Delete:
    "reachable t \<Longrightarrow> Delete t k' = Some (t', b) \<Longrightarrow> reachable t'"

section \<open>Vocabulary of the proofs\<close>

text \<open>
  A node whose metadata has just been refreshed: what \<^verbatim>\<open>updateSize\<close> makes of a node
  with children \<open>l\<close> and \<open>r\<close>.
\<close>

definition mk :: "addr \<Rightarrow> 'k \<Rightarrow> 'v \<Rightarrow> ('k, 'v) node \<Rightarrow> ('k, 'v) node \<Rightarrow> addr option \<Rightarrow> ('k, 'v) node" where
  "mk a k v l r p = Node a k v (max (height l) (height r) + 1) (1 + sizeOf l + sizeOf r) l r p"

text \<open>
  What an iterator still yields from its stack: from the top down, each node and then the
  nodes of its right subtree.
\<close>

definition unwind :: "('k, 'v) node list \<Rightarrow> ('k, 'v) node list" where
  "unwind stack = concat (map (\<lambda>m. m # inorder (right m)) (rev stack))"

text \<open>
  The tree that inserting the keys 1, 2, 3 (values 10, 20, 30) into the empty tree builds,
  the nodes allocated at addresses 0, 1, 2: the third insertion rotates left.
\<close>

abbreviation (input) tree123 :: "(int, int) tree" where
  "tree123 \<equiv> \<lparr>Root = Node 1 2 20 2 3
       (Node 0 1 10 1 1 Nil Nil (Some 1)) (Node 2 3 30 1 1 Nil Nil (Some 1)) None\<rparr>"

section \<open>Metadata and rotations\<close>

lemma pending_push_left: "pending (push_left cur stack) = pending stack + nodes cur"
  by (induction cur stack rule: push_left.induct) (simp_all add: pending_def)

lemma push_left_nonempty: "cur \<noteq> Nil \<or> stack \<noteq> [] \<Longrightarrow> push_left cur stack \<noteq> []"
  by (induction cur stack rule: push_left.induct) simp_all

lemma pending_pop:
  "stack \<noteq> [] \<Longrightarrow> nodes (right (last stack)) + pending (butlast stack) < pending stack"
  by (induction stack rule: rev_induct) (simp_all add: pending_def)


lemma sizeOf_if: "(if n \<noteq> Nil then siz n else 0) = sizeOf n"
  by (cases n) simp_all

lemma updateSize_mk: "updateSize (Node a k v h s l r p) = Some (mk a k v l r p)"
  by (simp add: mk_def sizeOf_if)

lemma rotateLeft_mk:
  "rotateLeft (Node za zk zv zh zs zl (Node ya yk yv yh ys yl yr yp) zp) =
     Some (mk ya yk yv (mk za zk zv zl (setParent (Some za) yl) (Some ya)) yr zp)"
  by (simp add: updateSize_mk del: updateSize.simps)

lemma rotateRight_mk:
  "rotateRight (Node za zk zv zh zs (Node ya yk yv yh ys yl yr yp) zr zp) =
     Some (mk ya yk yv yl (mk za zk zv (setParent (Some za) yr) zr (Some ya)) zp)"
  by (simp add: updateSize_mk del: updateSize.simps)

lemma height_setParent [simp]: "height (setParent q n) = height n"
  by (cases n) simp_all

lemma sizeOf_setParent [simp]: "sizeOf (setParent q n) = sizeOf n"
  by (cases n) simp_all

lemma height_mk [simp]: "height (mk a k v l r p) = max (height l) (height r) + 1"
  by (simp add: mk_def)

lemma rebalance_none:
  "\<not> height l - height r > 1 \<Longrightarrow> \<not> height l - height r < - 1 \<Longrightarrow>
   rebalance (Node a k v h s l r p) = Some (mk a k v l r p)"
  by (simp add: rebalance_def updateSize_mk del: updateSize.simps) (simp add: mk_def)

lemma rebalance_LL:
  "height l - height r > 1 \<Longrightarrow> l = Node la lk lv lh ls ll lr lp \<Longrightarrow> \<not> height ll - height lr < 0 \<Longrightarrow>
   rebalance (Node a k v h s l r p) =
     Some (mk la lk lv ll (mk a k v (setParent (Some a) lr) r (Some la)) p)"
  by (simp add: rebalance_def updateSize_mk del: updateSize.simps)
     (simp add: mk_def rotateRight_mk [unfolded mk_def] del: rotateRight.simps)

lemma rebalance_LR:
  "height l - height r > 1 \<Longrightarrow> l = Node la lk lv lh ls ll lr lp \<Longrightarrow> height ll - height lr < 0 \<Longrightarrow>
   lr = Node ma mk' mv mh ms ml mr mp \<Longrightarrow>
   rebalance (Node a k v h s l r p) =
     Some (mk ma mk' mv (mk la lk lv ll (setParent (Some la) ml) (Some ma))
             (mk a k v (setParent (Some a) mr) r (Some ma)) p)"
  by (simp add: rebalance_def updateSize_mk del: updateSize.simps)
     (simp add: mk_def rotateRight_mk [unfolded mk_def] rotateLeft_mk [unfolded mk_def] del: rotateRight.simps rotateLeft.simps)


lemma rebalance_RR:
  "height l - height r < - 1 \<Longrightarrow> r = Node ra rk rv rh rs rl rr rp \<Longrightarrow> \<not> height rl - height rr > 0 \<Longrightarrow>
   rebalance (Node a k v h s l r p) =
     Some (mk ra rk rv (mk a k v l (setParent (Some a) rl) (Some ra)) rr p)"
  by (simp add: rebalance_def updateSize_mk del: updateSize.simps)
     (simp add: mk_def rotateLeft_mk [unfolded mk_def] del: rotateLeft.simps)

lemma rebalance_RL:
  "height l - height r < - 1 \<Longrightarrow> r = Node ra rk rv rh rs rl rr rp \<Longrightarrow> height rl - height rr > 0 \<Longrightarrow>
   rl = Node ma mk' mv mh ms ml mr mp \<Longrightarrow>
   rebalance (Node a k v h s l r p) =
     Some (mk ma mk' mv (mk a k v l (setParent (Some a) ml) (Some ma))
             (mk ra rk rv (setParent (Some ra) mr) rr (Some ma)) p)"
  by (simp add: rebalance_def updateSize_mk del: updateSize.simps)
     (simp add: mk_def rotateRight_mk [unfolded mk_def] rotateLeft_mk [unfolded mk_def] del: rotateRight.simps rotateLeft.simps)

lemma rebalance_left_Nil:
  "height l - height r > 1 \<Longrightarrow> l = Nil \<Longrightarrow> rebalance (Node a k v h s l r p) = None"
  by (simp add: rebalance_def)

lemma rebalance_LR_Nil:
  "height l - height r > 1 \<Longrightarrow> l = Node la lk lv lh ls ll Nil lp \<Longrightarrow> height ll - height Nil < 0 \<Longrightarrow>
   rebalance (Node a k v h s l r p) = None"
  by (simp add: rebalance_def)

lemma rebalance_right_Nil:
  "height l - height r < - 1 \<Longrightarrow> r = Nil \<Longrightarrow> rebalance (Node a k v h s l r p) = None"
  by (simp add: rebalance_def)

lemma rebalance_RL_Nil:
  "height l - height r < - 1 \<Longrightarrow> r = Node ra rk rv rh rs Nil rr rp \<Longrightarrow> height Nil - height rr > 0 \<Longrightarrow>
   rebalance (Node a k v h s l r p) = None"
  by (simp add: rebalance_def)

lemma rebalance_cases [consumes 1, case_names none LL LR RR RL]:
  assumes "rebalance (Node a k v h s l r p) = Some n'"
  obtains
    "\<bar>height l - height r\<bar> \<le> 1" "n' = mk a k v l r p"
  | la lk lv lh ls ll lr lp where
      "height l - height r > 1" "l = Node la lk lv lh ls ll lr lp" "height lr \<le> height ll"
      "n' = mk la lk lv ll (mk a k v (setParent (Some a) lr) r (Some la)) p"
  | la lk lv lh ls ll lr lp ma mk' mv mh ms ml mr mp where
      "height l - height r > 1" "l = Node la lk lv lh ls ll lr lp" "height ll < height lr"
      "lr = Node ma mk' mv mh ms ml mr mp"
      "n' = mk ma mk' mv (mk la lk lv ll (setParent (Some la) ml) (Some ma))
              (mk a k v (setParent (Some a) mr) r (Some ma)) p"
  | ra rk rv rh rs rl rr rp where
      "height l - height r < - 1" "r = Node ra rk rv rh rs rl rr rp" "height rl \<le> height rr"
      "n' = mk ra rk rv (mk a k v l (setParent (Some a) rl) (Some ra)) rr p"
  | ra rk rv rh rs rl rr rp ma mk' mv mh ms ml mr mp where
      "height l - height r < - 1" "r = Node ra rk rv rh rs rl rr rp" "height rr < height rl"
      "rl = Node ma mk' mv mh ms ml mr mp"
      "n' = mk ma mk' mv (mk a k v l (setParent (Some a) ml) (Some ma))
              (mk ra rk rv (setParent (Some ra) mr) rr (Some ma)) p"
proof -
  consider (mid) "\<not> height l - height r > 1" "\<not> height l - height r < - 1"
    | (lheavy) "height l - height r > 1" | (rheavy) "height l - height r < - 1"
    by linarith
  then show thesis
  proof cases
    case mid
    with assms rebalance_none [OF mid, of a k v h s p] that(1) show thesis
      by simp
  next
    case lheavy
    show thesis
    proof (cases l)
      case Nil
      with assms rebalance_left_Nil [OF lheavy, of a k v h s p] show thesis by simp
    next
      case (Node la lk lv lh ls ll lr lp)
      show thesis
      proof (cases "height ll - height lr < 0")
        case False
        with assms rebalance_LL [OF lheavy Node, of a k v h s p] that(2) [OF lheavy Node] show thesis
          by simp
      next
        case True
        show thesis
        proof (cases lr)
          case Nil
          with assms rebalance_LR_Nil [OF lheavy, of la lk lv lh ls ll lp a k v h s p] Node True
          show thesis by simp
        next
          case lrN: (Node ma mk' mv mh ms ml mr mp)
          with assms rebalance_LR [OF lheavy Node True lrN, of a k v h s p]
            that(3) [OF lheavy Node _ lrN] True show thesis
            by simp
        qed
      qed
    qed
  next
    case rheavy
    show thesis
    proof (cases r)
      case Nil
      with assms rebalance_right_Nil [OF rheavy, of a k v h s p] show thesis by simp
    next
      case (Node ra rk rv rh rs rl rr rp)
      show thesis
      proof (cases "height rl - height rr > 0")
        case False
        with assms rebalance_RR [OF rheavy Node, of a k v h s p] that(4) [OF rheavy Node] show thesis
          by simp
      next
        case True
        show thesis
        proof (cases rl)
          case Nil
          with assms rebalance_RL_Nil [OF rheavy, of ra rk rv rh rs rr rp a k v h s p] Node True
          show thesis by simp
        next
          case rlN: (Node ma mk' mv mh ms ml mr mp)
          with assms rebalance_RL [OF rheavy Node True rlN, of a k v h s p]
            that(5) [OF rheavy Node _ rlN] True show thesis
            by simp
        qed
      qed
    qed
  qed
qed

lemma height_nonneg: "heights_ok n \<Longrightarrow> 0 \<le> height n"
  by (induction n) auto

lemma height_Node_pos: "heights_ok (Node a k v h s l r p) \<Longrightarrow> 1 \<le> h"
  using height_nonneg [of l] by simp

lemma height_pos_Node: "heights_ok n \<Longrightarrow> 0 < height n \<Longrightarrow> \<exists>a k v h s l r p. n = Node a k v h s l r p"
  by (cases n) simp_all

lemma balanced_setParent [simp]: "balanced (setParent q n) = balanced n"
  by (cases n) simp_all

lemma heights_ok_setParent [simp]: "heights_ok (setParent q n) = heights_ok n"
  by (cases n) simp_all

lemma sizes_ok_setParent [simp]: "sizes_ok (setParent q n) = sizes_ok n"
  by (cases n) simp_all

lemma parents_ok_setParent: "parents_ok q' n \<Longrightarrow> parents_ok q (setParent q n)"
  by (cases n) simp_all

lemma setParent_same: "parents_ok q n \<Longrightarrow> setParent q n = n"
  by (cases n) simp_all

lemma sizeOf_mk [simp]: "sizeOf (mk a k v l r p) = 1 + sizeOf l + sizeOf r"
  by (simp add: mk_def)

lemma balanced_mk [simp]:
  "balanced (mk a k v l r p) = (\<bar>height l - height r\<bar> \<le> 1 \<and> balanced l \<and> balanced r)"
  by (simp add: mk_def)

lemma heights_ok_mk [simp]: "heights_ok (mk a k v l r p) = (heights_ok l \<and> heights_ok r)"
  by (simp add: mk_def)

lemma sizes_ok_mk [simp]: "sizes_ok (mk a k v l r p) = (sizes_ok l \<and> sizes_ok r)"
  by (simp add: mk_def)

lemma parents_ok_mk [simp]:
  "parents_ok q (mk a k v l r p) = (p = q \<and> parents_ok (Some a) l \<and> parents_ok (Some a) r)"
  by (simp add: mk_def)

lemma rebalance_total:
  assumes "heights_ok l" "heights_ok r"
  shows "\<exists>n'. rebalance (Node a k v h s l r p) = Some n'"
proof -
  consider (mid) "\<not> height l - height r > 1" "\<not> height l - height r < - 1"
    | (lheavy) "height l - height r > 1" | (rheavy) "height l - height r < - 1"
    by linarith
  then show ?thesis
  proof cases
    case mid
    then show ?thesis by (simp add: rebalance_none)
  next
    case lheavy
    with height_nonneg [OF assms(2)] have "0 < height l" by simp
    from height_pos_Node [OF assms(1) this]
    obtain la lk lv lh ls ll lr lp where l: "l = Node la lk lv lh ls ll lr lp" by blast
    show ?thesis
    proof (cases "height ll - height lr < 0")
      case False
      from rebalance_LL [OF lheavy l False] show ?thesis by simp
    next
      case True
      from assms(1) l have "heights_ok ll" "heights_ok lr" by simp_all
      with True height_nonneg [of ll] have "0 < height lr" by simp
      from height_pos_Node [OF \<open>heights_ok lr\<close> this]
      obtain ma mk' mv mh ms ml mr mp where "lr = Node ma mk' mv mh ms ml mr mp" by blast
      from rebalance_LR [OF lheavy l True this] show ?thesis by simp
    qed
  next
    case rheavy
    with height_nonneg [OF assms(1)] have "0 < height r" by simp
    from height_pos_Node [OF assms(2) this]
    obtain ra rk rv rh rs rl rr rp where r: "r = Node ra rk rv rh rs rl rr rp" by blast
    show ?thesis
    proof (cases "height rl - height rr > 0")
      case False
      from rebalance_RR [OF rheavy r False] show ?thesis by simp
    next
      case True
      from assms(2) r have "heights_ok rl" "heights_ok rr" by simp_all
      with True height_nonneg [of rr] have "0 < height rl" by simp
      from height_pos_Node [OF \<open>heights_ok rl\<close> this]
      obtain ma mk' mv mh ms ml mr mp where "rl = Node ma mk' mv mh ms ml mr mp" by blast
      from rebalance_RL [OF rheavy r True this] show ?thesis by simp
    qed
  qed
qed

lemma rebalance_heights_ok:
  assumes "rebalance (Node a k v h s l r p) = Some n'" "heights_ok l" "heights_ok r"
  shows "heights_ok n'"
  using assms by (cases rule: rebalance_cases) auto

lemma rebalance_sizes_ok:
  assumes "rebalance (Node a k v h s l r p) = Some n'" "sizes_ok l" "sizes_ok r"
  shows "sizes_ok n' \<and> sizeOf n' = 1 + sizeOf l + sizeOf r"
  using assms by (cases rule: rebalance_cases) auto

lemma rebalance_parents_ok:
  assumes "rebalance (Node a k v h s l r p) = Some n'" "parents_ok (Some a) l" "parents_ok (Some a) r"
  shows "parents_ok p n'"
  using assms by (cases rule: rebalance_cases) (auto intro: parents_ok_setParent)

lemma rebalance_balanced:
  assumes "rebalance (Node a k v h s l r p) = Some n'"
    and "heights_ok l" "heights_ok r" "balanced l" "balanced r"
    and "\<bar>height l - height r\<bar> \<le> 2"
  shows "balanced n' \<and>
         (height n' = max (height l) (height r) + 1 \<or>
          \<bar>height l - height r\<bar> = 2 \<and> height n' = max (height l) (height r))"
  using assms
proof (cases rule: rebalance_cases)
  case none
  then show ?thesis using assms by simp
next
  case (LL la lk lv lh ls ll lr lp)
  then show ?thesis using assms by (auto simp: max_def)
next
  case (LR la lk lv lh ls ll lr lp ma mk' mv mh ms ml mr mp)
  then show ?thesis using assms by (auto simp: max_def)
next
  case (RR ra rk rv rh rs rl rr rp)
  then show ?thesis using assms by (auto simp: max_def)
next
  case (RL ra rk rv rh rs rl rr rp ma mk' mv mh ms ml mr mp)
  then show ?thesis using assms by (auto simp: max_def)
qed

section \<open>In-order projections\<close>

lemma keys_simps [simp]:
  "keys Nil = []"
  "keys (Node a k v h s l r p) = keys l @ k # keys r"
  "keys (mk a k v l r p) = keys l @ k # keys r"
  by (simp_all add: keys_def mk_def)

lemma addrs_simps [simp]:
  "addrs Nil = []"
  "addrs (Node a k v h s l r p) = addrs l @ a # addrs r"
  "addrs (mk a k v l r p) = addrs l @ a # addrs r"
  by (simp_all add: addrs_def mk_def)

lemma entries_simps [simp]:
  "entries Nil = []"
  "entries (Node a k v h s l r p) = entries l @ (k, v) # entries r"
  "entries (mk a k v l r p) = entries l @ (k, v) # entries r"
  by (simp_all add: entries_def mk_def)

lemma keys_setParent [simp]: "keys (setParent q n) = keys n"
  by (cases n) simp_all

lemma addrs_setParent [simp]: "addrs (setParent q n) = addrs n"
  by (cases n) simp_all

lemma entries_setParent [simp]: "entries (setParent q n) = entries n"
  by (cases n) simp_all

lemma keys_entries: "keys n = map fst (entries n)"
  by (simp add: keys_def entries_def)

lemma length_keys: "length (keys n) = length (inorder n)"
  by (simp add: keys_def)

lemma rebalance_keys:
  assumes "rebalance (Node a k v h s l r p) = Some n'"
  shows "keys n' = keys l @ k # keys r"
  using assms by (cases rule: rebalance_cases) auto

lemma rebalance_addrs:
  assumes "rebalance (Node a k v h s l r p) = Some n'"
  shows "addrs n' = addrs l @ a # addrs r"
  using assms by (cases rule: rebalance_cases) auto

lemma rebalance_entries:
  assumes "rebalance (Node a k v h s l r p) = Some n'"
  shows "entries n' = entries l @ (k, v) # entries r"
  using assms by (cases rule: rebalance_cases) auto

section \<open>Insertion\<close>

lemma insertRec_Node_cases [consumes 1, case_names left right overwrite]:
  assumes "insertRec new (Node a k v h s l r p) k' v' par = Some (n', b)"
  obtains
    l' where "k' < k" "insertRec new l k' v' (Some a) = Some (l', b)"
      "rebalance (Node a k v h s l' r p) = Some n'"
  | r' where "k < k'" "insertRec new r k' v' (Some a) = Some (r', b)"
      "rebalance (Node a k v h s l r' p) = Some n'"
  | "k' = k" "n' = Node a k v' h s l r p" "\<not> b"
proof -
  consider (lt) "k' < k" | (gt) "k < k'" | (eq) "k' = k"
    by (cases k' k rule: linorder_cases) auto
  then show thesis
  proof cases
    case lt
    with assms obtain l' where "insertRec new l k' v' (Some a) = Some (l', b)"
      "rebalance (Node a k v h s l' r p) = Some n'"
      by (auto split: bind_splits)
    with lt that(1) show thesis by blast
  next
    case gt
    then have "\<not> k' < k" by simp
    with gt assms obtain r' where "insertRec new r k' v' (Some a) = Some (r', b)"
      "rebalance (Node a k v h s l r' p) = Some n'"
      by (auto split: bind_splits)
    with gt that(2) show thesis by blast
  next
    case eq
    then have "\<not> k' < k" by simp
    with eq assms that(3) show thesis by auto
  qed
qed

lemma insertRec_total:
  "heights_ok n \<Longrightarrow> balanced n \<Longrightarrow>
   \<exists>n' b. insertRec new n k' v' par = Some (n', b) \<and> heights_ok n' \<and> balanced n' \<and>
          (height n' = height n \<or> height n' = height n + 1)"
proof (induction n arbitrary: par)
  case Nil
  show ?case by auto
next
  case (Node a k v h s l r p)
  consider (left) "k' < k" | (right) "k < k'" | (overwrite) "k' = k"
    by (cases k' k rule: linorder_cases) auto
  then show ?case
  proof cases
    case left
    from Node.IH(1) [of "Some a"] Node.prems obtain l' b
      where l': "insertRec new l k' v' (Some a) = Some (l', b)" "heights_ok l'" "balanced l'"
        "height l' = height l \<or> height l' = height l + 1"
      by auto
    from rebalance_total [OF l'(2), of r a k v h s p] Node.prems
    obtain n' where n': "rebalance (Node a k v h s l' r p) = Some n'" by auto
    from Node.prems l'(4) have "\<bar>height l' - height r\<bar> \<le> 2" by auto
    from rebalance_balanced [OF n' l'(2) _ l'(3) _ this] Node.prems
    have bal: "balanced n'"
      and hn: "height n' = max (height l') (height r) + 1 \<or>
        \<bar>height l' - height r\<bar> = 2 \<and> height n' = max (height l') (height r)"
      by simp_all
    from Node.prems have "h = 1 + max (height l) (height r)" "\<bar>height l - height r\<bar> \<le> 1"
      by simp_all
    with hn l'(4) have "height n' = h \<or> height n' = h + 1" by arith
    moreover from rebalance_heights_ok [OF n' l'(2)] Node.prems have "heights_ok n'" by simp
    ultimately show ?thesis using left l'(1) n' bal by simp
  next
    case right
    from Node.IH(2) [of "Some a"] Node.prems obtain r' b
      where r': "insertRec new r k' v' (Some a) = Some (r', b)" "heights_ok r'" "balanced r'"
        "height r' = height r \<or> height r' = height r + 1"
      by auto
    from rebalance_total [OF _ r'(2), of l a k v h s p] Node.prems
    obtain n' where n': "rebalance (Node a k v h s l r' p) = Some n'" by auto
    from Node.prems r'(4) have "\<bar>height l - height r'\<bar> \<le> 2" by auto
    from rebalance_balanced [OF n' _ r'(2) _ r'(3) this] Node.prems
    have bal: "balanced n'"
      and hn: "height n' = max (height l) (height r') + 1 \<or>
        \<bar>height l - height r'\<bar> = 2 \<and> height n' = max (height l) (height r')"
      by simp_all
    from Node.prems have "h = 1 + max (height l) (height r)" "\<bar>height l - height r\<bar> \<le> 1"
      by simp_all
    with hn r'(4) have "height n' = h \<or> height n' = h + 1" by arith
    moreover from rebalance_heights_ok [OF n' _ r'(2)] Node.prems have "heights_ok n'" by simp
    moreover from right have "\<not> k' < k" by simp
    ultimately show ?thesis using right r'(1) n' bal by simp
  next
    case overwrite
    with Node.prems show ?thesis by auto
  qed
qed

lemma insertRec_sizes:
  "insertRec new n k' v' par = Some (n', b) \<Longrightarrow> sizes_ok n \<Longrightarrow>
   sizes_ok n' \<and> sizeOf n' = sizeOf n + (if b then 1 else 0)"
proof (induction n arbitrary: n' par)
  case Nil
  then show ?case by auto
next
  case (Node a k v h s l r p)
  from Node.prems(1) show ?case
  proof (cases rule: insertRec_Node_cases)
    case (left l')
    from Node.IH(1) [OF left(2)] rebalance_sizes_ok [OF left(3)] Node.prems(2)
    show ?thesis by simp
  next
    case (right r')
    from Node.IH(2) [OF right(2)] rebalance_sizes_ok [OF right(3)] Node.prems(2)
    show ?thesis by simp
  next
    case overwrite
    with Node.prems(2) show ?thesis by simp
  qed
qed

lemma insertRec_parents:
  "insertRec new n k' v' par = Some (n', b) \<Longrightarrow> parents_ok par n \<Longrightarrow> parents_ok par n'"
proof (induction n arbitrary: n' par)
  case Nil
  then show ?case by auto
next
  case (Node a k v h s l r p)
  from Node.prems(1) show ?case
  proof (cases rule: insertRec_Node_cases)
    case (left l')
    from Node.IH(1) [OF left(2)] rebalance_parents_ok [OF left(3)] Node.prems(2)
    show ?thesis by simp
  next
    case (right r')
    from Node.IH(2) [OF right(2)] rebalance_parents_ok [OF right(3)] Node.prems(2)
    show ?thesis by simp
  next
    case overwrite
    with Node.prems(2) show ?thesis by simp
  qed
qed

lemma insertRec_set_keys:
  "insertRec new n k' v' par = Some (n', b) \<Longrightarrow> set (keys n') = insert k' (set (keys n))"
proof (induction n arbitrary: n' par)
  case Nil
  then show ?case by auto
next
  case (Node a k v h s l r p)
  from Node.prems(1) show ?case
  proof (cases rule: insertRec_Node_cases)
    case (left l')
    from Node.IH(1) [OF left(2)] rebalance_keys [OF left(3)]
    show ?thesis by auto
  next
    case (right r')
    from Node.IH(2) [OF right(2)] rebalance_keys [OF right(3)]
    show ?thesis by auto
  next
    case overwrite
    then show ?thesis by auto
  qed
qed

lemma bst_Node:
  "bst (Node a k v h s l r p) \<longleftrightarrow>
     bst l \<and> bst r \<and> (\<forall>x\<in>set (keys l). x < k) \<and> (\<forall>y\<in>set (keys r). k < y)"
  by (auto simp: bst_def sorted_wrt_append; meson less_trans)

lemma bst_of_keys:
  "keys n' = keys l @ k # keys r \<Longrightarrow>
   bst n' \<longleftrightarrow> bst l \<and> bst r \<and> (\<forall>x\<in>set (keys l). x < k) \<and> (\<forall>y\<in>set (keys r). k < y)"
  by (auto simp: bst_def sorted_wrt_append; meson less_trans)

lemma insertRec_bst:
  "insertRec new n k' v' par = Some (n', b) \<Longrightarrow> bst n \<Longrightarrow> bst n'"
proof (induction n arbitrary: n' par)
  case Nil
  then show ?case by (auto simp: bst_def)
next
  case (Node a k v h s l r p)
  from Node.prems(1) show ?case
  proof (cases rule: insertRec_Node_cases)
    case (left l')
    from Node.IH(1) [OF left(2)] insertRec_set_keys [OF left(2)] Node.prems(2) left(1)
    show ?thesis
      by (simp add: bst_of_keys [OF rebalance_keys [OF left(3)]] bst_Node)
  next
    case (right r')
    from Node.IH(2) [OF right(2)] insertRec_set_keys [OF right(2)] Node.prems(2) right(1)
    show ?thesis
      by (simp add: bst_of_keys [OF rebalance_keys [OF right(3)]] bst_Node)
  next
    case overwrite
    with Node.prems(2) show ?thesis by (simp add: bst_Node)
  qed
qed

lemma insertRec_flag:
  "insertRec new n k' v' par = Some (n', b) \<Longrightarrow> bst n \<Longrightarrow> b \<longleftrightarrow> k' \<notin> set (keys n)"
proof (induction n arbitrary: n' par)
  case Nil
  then show ?case by auto
next
  case (Node a k v h s l r p)
  from Node.prems(1) show ?case
  proof (cases rule: insertRec_Node_cases)
    case (left l')
    from Node.IH(1) [OF left(2)] Node.prems(2) left(1)
    show ?thesis by (auto simp: bst_Node)
  next
    case (right r')
    from Node.IH(2) [OF right(2)] Node.prems(2) right(1)
    show ?thesis by (auto simp: bst_Node)
  next
    case overwrite
    then show ?thesis by simp
  qed
qed

lemma insertRec_set_addrs:
  "insertRec new n k' v' par = Some (n', b) \<Longrightarrow> set (addrs n') \<subseteq> insert new (set (addrs n))"
proof (induction n arbitrary: n' par)
  case Nil
  then show ?case by auto
next
  case (Node a k v h s l r p)
  from Node.prems(1) show ?case
  proof (cases rule: insertRec_Node_cases)
    case (left l')
    from Node.IH(1) [OF left(2)] rebalance_addrs [OF left(3)]
    show ?thesis by auto
  next
    case (right r')
    from Node.IH(2) [OF right(2)] rebalance_addrs [OF right(3)]
    show ?thesis by auto
  next
    case overwrite
    then show ?thesis by auto
  qed
qed

lemma insertRec_distinct:
  "insertRec new n k' v' par = Some (n', b) \<Longrightarrow> distinct (addrs n) \<Longrightarrow> new \<notin> set (addrs n) \<Longrightarrow>
   distinct (addrs n')"
proof (induction n arbitrary: n' par)
  case Nil
  then show ?case by auto
next
  case (Node a k v h s l r p)
  from Node.prems(1) show ?case
  proof (cases rule: insertRec_Node_cases)
    case (left l')
    from Node.IH(1) [OF left(2)] insertRec_set_addrs [OF left(2)] Node.prems(2,3)
    show ?thesis by (auto simp: rebalance_addrs [OF left(3)])
  next
    case (right r')
    from Node.IH(2) [OF right(2)] insertRec_set_addrs [OF right(2)] Node.prems(2,3)
    show ?thesis by (auto simp: rebalance_addrs [OF right(3)])
  next
    case overwrite
    with Node.prems(2) show ?thesis by simp
  qed
qed

lemma insertRec_entry:
  "insertRec new n k' v' par = Some (n', b) \<Longrightarrow> (k', v') \<in> set (entries n')"
proof (induction n arbitrary: n' par)
  case Nil
  then show ?case by auto
next
  case (Node a k v h s l r p)
  from Node.prems(1) show ?case
  proof (cases rule: insertRec_Node_cases)
    case (left l')
    from Node.IH(1) [OF left(2)] show ?thesis by (simp add: rebalance_entries [OF left(3)])
  next
    case (right r')
    from Node.IH(2) [OF right(2)] show ?thesis by (simp add: rebalance_entries [OF right(3)])
  next
    case overwrite
    then show ?thesis by simp
  qed
qed

lemma insertRec_invar:
  assumes "invar par n" "new \<notin> set (addrs n)"
  shows "\<exists>n' b. insertRec new n k' v' par = Some (n', b) \<and> invar par n'"
proof -
  from assms(1) have n: "bst n" "balanced n" "heights_ok n" "sizes_ok n" "parents_ok par n"
    "distinct (addrs n)"
    by (simp_all add: invar_def)
  from insertRec_total [OF n(3) n(2), of new k' v' par]
  obtain n' b where ins: "insertRec new n k' v' par = Some (n', b)"
    and "heights_ok n'" "balanced n'"
    by blast
  moreover from insertRec_bst [OF ins n(1)] have "bst n'" .
  moreover from insertRec_sizes [OF ins n(4)] have "sizes_ok n'" by simp
  moreover from insertRec_parents [OF ins n(5)] have "parents_ok par n'" .
  moreover from insertRec_distinct [OF ins n(6) assms(2)] have "distinct (addrs n')" .
  ultimately show ?thesis by (simp add: invar_def)
qed

section \<open>Deletion\<close>

lemma minNode_total: "n \<noteq> Nil \<Longrightarrow> \<exists>m. minNode n = Some m"
  by (induction n) auto

lemma minNode_keys: "minNode n = Some m \<Longrightarrow> \<exists>ks. keys n = key m # ks"
  by (induction n) (auto split: if_splits)

lemma minNode_entries: "minNode n = Some m \<Longrightarrow> \<exists>es. entries n = (key m, val m) # es"
  by (induction n) (auto split: if_splits)

lemma deleteRec_Node_cases [consumes 1, case_names left right splice twochild]:
  assumes "deleteRec (Node a k v h s l r p) k' = Some (n', b)"
  obtains
    l' where "k' < k" "deleteRec l k' = Some (l', b)"
      "rebalance (Node a k v h s l' r p) = Some n'"
  | r' where "k < k'" "deleteRec r k' = Some (r', b)"
      "rebalance (Node a k v h s l r' p) = Some n'"
  | "k' = k" "l = Nil \<or> r = Nil" "n' = setParent p (if l \<noteq> Nil then l else r)" "b"
  | succ r' b' where "k' = k" "l \<noteq> Nil" "r \<noteq> Nil" "minNode r = Some succ"
      "deleteRec r (key succ) = Some (r', b')"
      "rebalance (Node a (key succ) (val succ) h s l r' p) = Some n'" "b"
proof -
  consider (lt) "k' < k" | (gt) "k < k'" | (eq) "k' = k"
    by (cases k' k rule: linorder_cases) auto
  then show thesis
  proof cases
    case lt
    with assms obtain l' where "deleteRec l k' = Some (l', b)"
      "rebalance (Node a k v h s l' r p) = Some n'"
      by (auto split: bind_splits)
    with lt that(1) show thesis by blast
  next
    case gt
    then have "\<not> k' < k" by simp
    with gt assms obtain r' where "deleteRec r k' = Some (r', b)"
      "rebalance (Node a k v h s l r' p) = Some n'"
      by (auto split: bind_splits)
    with gt that(2) show thesis by blast
  next
    case eq
    show thesis
    proof (cases "l = Nil \<or> r = Nil")
      case True
      with eq assms have "n' = setParent p (if l \<noteq> Nil then l else r)" "b"
        by (auto split: if_splits)
      with eq True that(3) show thesis by blast
    next
      case False
      with eq assms obtain succ r' b' where "minNode r = Some succ"
        "deleteRec r (key succ) = Some (r', b')"
        "rebalance (Node a (key succ) (val succ) h s l r' p) = Some n'" "b"
        by (auto split: bind_splits)
      with eq False that(4) show thesis by blast
    qed
  qed
qed

lemma deleteRec_total:
  "heights_ok n \<Longrightarrow> balanced n \<Longrightarrow>
   \<exists>n' b. deleteRec n k' = Some (n', b) \<and> heights_ok n' \<and> balanced n' \<and>
          (height n' = height n \<or> height n' = height n - 1)"
proof (induction n arbitrary: k')
  case Nil
  show ?case by auto
next
  case (Node a k v h s l r p)
  from Node.prems have hb: "h = 1 + max (height l) (height r)" "\<bar>height l - height r\<bar> \<le> 1"
    and sub: "heights_ok l" "heights_ok r" "balanced l" "balanced r"
    by simp_all
  have via_left: "\<exists>n' b. rebalance (Node a x y h s l' r p) = Some n' \<and> heights_ok n' \<and> balanced n' \<and>
          (height n' = h \<or> height n' = h - 1)"
    if l': "heights_ok l'" "balanced l'" "height l' = height l \<or> height l' = height l - 1"
    for l' x y
  proof -
    from rebalance_total [OF l'(1) sub(2), of a x y h s p]
    obtain n' where n': "rebalance (Node a x y h s l' r p) = Some n'" by auto
    from hb l'(3) have "\<bar>height l' - height r\<bar> \<le> 2" by auto
    from rebalance_balanced [OF n' l'(1) sub(2) l'(2) sub(4) this]
    have bal: "balanced n'"
      and hn: "height n' = max (height l') (height r) + 1 \<or>
        \<bar>height l' - height r\<bar> = 2 \<and> height n' = max (height l') (height r)"
      by simp_all
    from hn l'(3) hb have "height n' = h \<or> height n' = h - 1" by arith
    with n' bal rebalance_heights_ok [OF n' l'(1) sub(2)] show ?thesis by simp
  qed
  have via_right: "\<exists>n' b. rebalance (Node a x y h s l r' p) = Some n' \<and> heights_ok n' \<and> balanced n' \<and>
          (height n' = h \<or> height n' = h - 1)"
    if r': "heights_ok r'" "balanced r'" "height r' = height r \<or> height r' = height r - 1"
    for r' x y
  proof -
    from rebalance_total [OF sub(1) r'(1), of a x y h s p]
    obtain n' where n': "rebalance (Node a x y h s l r' p) = Some n'" by auto
    from hb r'(3) have "\<bar>height l - height r'\<bar> \<le> 2" by auto
    from rebalance_balanced [OF n' sub(1) r'(1) sub(3) r'(2) this]
    have bal: "balanced n'"
      and hn: "height n' = max (height l) (height r') + 1 \<or>
        \<bar>height l - height r'\<bar> = 2 \<and> height n' = max (height l) (height r')"
      by simp_all
    from hn r'(3) hb have "height n' = h \<or> height n' = h - 1" by arith
    with n' bal rebalance_heights_ok [OF n' sub(1) r'(1)] show ?thesis by simp
  qed
  consider (left) "k' < k" | (right) "\<not> k' < k" "k < k'"
    | (splice) "k' = k" "l = Nil \<or> r = Nil" | (twochild) "k' = k" "l \<noteq> Nil" "r \<noteq> Nil"
    by (cases k' k rule: linorder_cases) auto
  then show ?case
  proof cases
    case left
    from Node.IH(1) [OF sub(1) sub(3), of k'] obtain l' b
      where l': "deleteRec l k' = Some (l', b)" "heights_ok l'" "balanced l'"
        "height l' = height l \<or> height l' = height l - 1"
      by auto
    from via_left [OF l'(2-4), of k v] left l'(1) show ?thesis by auto
  next
    case right
    from Node.IH(2) [OF sub(2) sub(4), of k'] obtain r' b
      where r': "deleteRec r k' = Some (r', b)" "heights_ok r'" "balanced r'"
        "height r' = height r \<or> height r' = height r - 1"
      by auto
    from via_right [OF r'(2-4), of k v] right r'(1) show ?thesis by auto
  next
    case splice
    from splice(2) show ?thesis
    proof
      assume "l = Nil"
      with splice(1) hb sub height_nonneg [OF sub(2)] show ?thesis by auto
    next
      assume "r = Nil"
      with splice(1) hb sub height_nonneg [OF sub(1)] show ?thesis by auto
    qed
  next
    case twochild
    from minNode_total [OF twochild(3)] obtain succ where succ: "minNode r = Some succ" by blast
    from Node.IH(2) [OF sub(2) sub(4), of "key succ"] obtain r' b
      where r': "deleteRec r (key succ) = Some (r', b)" "heights_ok r'" "balanced r'"
        "height r' = height r \<or> height r' = height r - 1"
      by auto
    from via_right [OF r'(2-4), of "key succ" "val succ"] twochild succ r'(1)
    show ?thesis by auto
  qed
qed

lemma deleteRec_parents:
  "deleteRec n k' = Some (n', b) \<Longrightarrow> parents_ok q n \<Longrightarrow> parents_ok q n'"
proof (induction n arbitrary: n' k' b q)
  case Nil
  then show ?case by auto
next
  case (Node a k v h s l r p)
  from Node.prems(1) show ?case
  proof (cases rule: deleteRec_Node_cases)
    case (left l')
    from Node.IH(1) [OF left(2)] rebalance_parents_ok [OF left(3)] Node.prems(2)
    show ?thesis by simp
  next
    case (right r')
    from Node.IH(2) [OF right(2)] rebalance_parents_ok [OF right(3)] Node.prems(2)
    show ?thesis by simp
  next
    case splice
    with Node.prems(2) show ?thesis by (auto intro: parents_ok_setParent)
  next
    case (twochild succ r' b')
    from Node.IH(2) [OF twochild(5)] rebalance_parents_ok [OF twochild(6)] Node.prems(2)
    show ?thesis by simp
  qed
qed

lemma deleteRec_set_addrs:
  "deleteRec n k' = Some (n', b) \<Longrightarrow> set (addrs n') \<subseteq> set (addrs n)"
proof (induction n arbitrary: n' k' b)
  case Nil
  then show ?case by auto
next
  case (Node a k v h s l r p)
  from Node.prems(1) show ?case
  proof (cases rule: deleteRec_Node_cases)
    case (left l')
    from Node.IH(1) [OF left(2)] rebalance_addrs [OF left(3)] show ?thesis by auto
  next
    case (right r')
    from Node.IH(2) [OF right(2)] rebalance_addrs [OF right(3)] show ?thesis by auto
  next
    case splice
    then show ?thesis by auto
  next
    case (twochild succ r' b')
    from Node.IH(2) [OF twochild(5)] rebalance_addrs [OF twochild(6)] show ?thesis by auto
  qed
qed

lemma deleteRec_distinct:
  "deleteRec n k' = Some (n', b) \<Longrightarrow> distinct (addrs n) \<Longrightarrow> distinct (addrs n')"
proof (induction n arbitrary: n' k' b)
  case Nil
  then show ?case by auto
next
  case (Node a k v h s l r p)
  from Node.prems(1) show ?case
  proof (cases rule: deleteRec_Node_cases)
    case (left l')
    from Node.IH(1) [OF left(2)] deleteRec_set_addrs [OF left(2)] Node.prems(2)
    show ?thesis by (auto simp: rebalance_addrs [OF left(3)])
  next
    case (right r')
    from Node.IH(2) [OF right(2)] deleteRec_set_addrs [OF right(2)] Node.prems(2)
    show ?thesis by (auto simp: rebalance_addrs [OF right(3)])
  next
    case splice
    with Node.prems(2) show ?thesis by auto
  next
    case (twochild succ r' b')
    from Node.IH(2) [OF twochild(5)] deleteRec_set_addrs [OF twochild(5)] Node.prems(2)
    show ?thesis by (auto simp: rebalance_addrs [OF twochild(6)])
  qed
qed

lemma bst_setParent [simp]: "bst (setParent q n) = bst n"
  by (simp add: bst_def)

lemma deleteRec_keys:
  "deleteRec n k' = Some (n', b) \<Longrightarrow> bst n \<Longrightarrow>
   bst n' \<and> set (keys n') = set (keys n) - {k'} \<and> (b \<longleftrightarrow> k' \<in> set (keys n))"
proof (induction n arbitrary: n' k' b)
  case Nil
  then show ?case by (auto simp: bst_def)
next
  case (Node a k v h s l r p)
  from Node.prems(2) have sub: "bst l" "bst r"
    and lk: "\<forall>x\<in>set (keys l). x < k" and kr: "\<forall>y\<in>set (keys r). k < y"
    by (simp_all add: bst_Node)
  from lk have kl: "k \<notin> set (keys l)" by auto
  from kr have kr': "k \<notin> set (keys r)" by auto
  from Node.prems(1) show ?case
  proof (cases rule: deleteRec_Node_cases)
    case (left l')
    note kn = rebalance_keys [OF left(3)]
    from Node.IH(1) [OF left(2) sub(1)]
    have l': "bst l'" "set (keys l') = set (keys l) - {k'}" "b \<longleftrightarrow> k' \<in> set (keys l)"
      by simp_all
    from left(1) kr have nr: "k' \<notin> set (keys r)" by auto
    from l'(2) lk have "\<forall>x\<in>set (keys l'). x < k" by simp
    with l'(1) sub(2) kr have "bst n'" by (simp add: bst_of_keys [OF kn])
    moreover from l'(2) nr left(1) have "set (keys n') = set (keys (Node a k v h s l r p)) - {k'}"
      by (auto simp: kn)
    moreover from l'(3) nr left(1) have "b \<longleftrightarrow> k' \<in> set (keys (Node a k v h s l r p))"
      by auto
    ultimately show ?thesis by blast
  next
    case (right r')
    note kn = rebalance_keys [OF right(3)]
    from Node.IH(2) [OF right(2) sub(2)]
    have r': "bst r'" "set (keys r') = set (keys r) - {k'}" "b \<longleftrightarrow> k' \<in> set (keys r)"
      by simp_all
    from right(1) lk have nl: "k' \<notin> set (keys l)" by auto
    from r'(2) kr have "\<forall>y\<in>set (keys r'). k < y" by simp
    with r'(1) sub(1) lk have "bst n'" by (simp add: bst_of_keys [OF kn])
    moreover from r'(2) nl right(1) have "set (keys n') = set (keys (Node a k v h s l r p)) - {k'}"
      by (auto simp: kn)
    moreover from r'(3) nl right(1) have "b \<longleftrightarrow> k' \<in> set (keys (Node a k v h s l r p))"
      by auto
    ultimately show ?thesis by blast
  next
    case splice
    from splice(2) show ?thesis
    proof
      assume "l = Nil"
      with splice sub kr' show ?thesis by auto
    next
      assume r: "r = Nil"
      with splice(3) have "n' = setParent p l" by (cases "l = Nil") simp_all
      with r splice(1,4) sub kl show ?thesis by auto
    qed
  next
    case (twochild succ r' b')
    note kn = rebalance_keys [OF twochild(6)]
    from minNode_keys [OF twochild(4)] obtain ks where ks: "keys r = key succ # ks" by blast
    with sub(2) have lt: "\<forall>y\<in>set ks. key succ < y"
      by (simp add: bst_def)
    then have notin: "key succ \<notin> set ks" by auto
    from Node.IH(2) [OF twochild(5) sub(2)]
    have "bst r'" "set (keys r') = set (keys r) - {key succ}" by simp_all
    with ks notin have r': "bst r'" "set (keys r') = set ks" by auto
    from ks kr have ksucc: "k < key succ" by simp
    with lk have "\<forall>x\<in>set (keys l). x < key succ" by auto
    with r' lt sub(1) have "bst n'"
      by (simp add: bst_of_keys [OF kn])
    moreover have "set (keys n') = set (keys l) \<union> set (keys r)"
      using r'(2) ks by (auto simp: kn)
    with kl kr' twochild(1)
    have "set (keys n') = set (keys (Node a k v h s l r p)) - {k'}"
      by auto
    ultimately show ?thesis using twochild(1,7) by simp
  qed
qed

lemma deleteRec_sizes:
  "deleteRec n k' = Some (n', b) \<Longrightarrow> bst n \<Longrightarrow> sizes_ok n \<Longrightarrow>
   sizes_ok n' \<and> sizeOf n' = sizeOf n - (if b then 1 else 0)"
proof (induction n arbitrary: n' k' b)
  case Nil
  then show ?case by auto
next
  case (Node a k v h s l r p)
  from Node.prems(2) have sub: "bst l" "bst r"
    by (simp_all add: bst_Node)
  from Node.prems(3) have so: "s = 1 + sizeOf l + sizeOf r" "sizes_ok l" "sizes_ok r"
    by simp_all
  from Node.prems(1) show ?case
  proof (cases rule: deleteRec_Node_cases)
    case (left l')
    from Node.IH(1) [OF left(2) sub(1) so(2)]
    have l': "sizes_ok l'" "sizeOf l' = sizeOf l - (if b then 1 else 0)" by blast+
    from rebalance_sizes_ok [OF left(3) l'(1) so(3)] l'(2) so(1)
    show ?thesis by simp
  next
    case (right r')
    from Node.IH(2) [OF right(2) sub(2) so(3)]
    have r': "sizes_ok r'" "sizeOf r' = sizeOf r - (if b then 1 else 0)" by blast+
    from rebalance_sizes_ok [OF right(3) so(2) r'(1)] r'(2) so(1)
    show ?thesis by simp
  next
    case splice
    from splice(2) show ?thesis
    proof
      assume "l = Nil"
      with splice(3,4) so show ?thesis by simp
    next
      assume r: "r = Nil"
      with splice(3) have "n' = setParent p l" by (cases "l = Nil") simp_all
      with r splice(4) so show ?thesis by simp
    qed
  next
    case (twochild succ r' b')
    from minNode_keys [OF twochild(4)] have "key succ \<in> set (keys r)" by auto
    with deleteRec_keys [OF twochild(5) sub(2)] have b': "b'" by blast
    from Node.IH(2) [OF twochild(5) sub(2) so(3)] b'
    have r': "sizes_ok r'" "sizeOf r' = sizeOf r - 1" by simp_all
    from rebalance_sizes_ok [OF twochild(6) so(2) r'(1)] r'(2) so(1) twochild(7)
    show ?thesis by simp
  qed
qed

lemma deleteRec_invar:
  assumes "invar q n"
  shows "\<exists>n' b. deleteRec n k' = Some (n', b) \<and> invar q n'"
proof -
  from assms have n: "bst n" "balanced n" "heights_ok n" "sizes_ok n" "parents_ok q n"
    "distinct (addrs n)"
    by (simp_all add: invar_def)
  from deleteRec_total [OF n(3) n(2), of k']
  obtain n' b where del: "deleteRec n k' = Some (n', b)"
    and "heights_ok n'" "balanced n'"
    by blast
  moreover from deleteRec_keys [OF del n(1)] have "bst n'" by simp
  moreover from deleteRec_sizes [OF del n(1) n(4)] have "sizes_ok n'" by simp
  moreover from deleteRec_parents [OF del n(5)] have "parents_ok q n'" .
  moreover from deleteRec_distinct [OF del n(6)] have "distinct (addrs n')" .
  ultimately show ?thesis by (simp add: invar_def)
qed


section \<open>Well-formed trees\<close>

lemma wf_tree_New: "wf_tree New"
  by (simp add: wf_tree_def New_def invar_def bst_def)

lemma Insert_wf:
  assumes "wf_tree t" "new \<notin> set (addrs (Root t))"
  shows "\<exists>t' b. Insert new t k' v' = Some (t', b) \<and> wf_tree t'"
proof -
  from assms have "invar None (Root t)" by (simp add: wf_tree_def)
  from insertRec_invar [OF this assms(2), of k' v']
  obtain n' b where "insertRec new (Root t) k' v' None = Some (n', b)" "invar None n'"
    by blast
  then show ?thesis by (simp add: Insert_def wf_tree_def)
qed

lemma Delete_wf:
  assumes "wf_tree t"
  shows "\<exists>t' b. Delete t k' = Some (t', b) \<and> wf_tree t'"
proof -
  from assms have "invar None (Root t)" by (simp add: wf_tree_def)
  from deleteRec_invar [OF this, of k']
  obtain n' b where del: "deleteRec (Root t) k' = Some (n', b)" and inv: "invar None n'"
    by blast
  from inv have "parents_ok None n'" by (simp add: invar_def)
  then have "setParent None n' = n'" by (rule setParent_same)
  with del inv show ?thesis by (simp add: Delete_def wf_tree_def)
qed

lemma reachable_wf: "reachable t \<Longrightarrow> wf_tree t"
proof (induction rule: reachable.induct)
  case reachable_New
  show ?case by (rule wf_tree_New)
next
  case (reachable_Insert t new k' v' t' b)
  from Insert_wf [OF reachable_Insert.IH reachable_Insert.hyps(2), of k' v'] reachable_Insert.hyps(3)
  show ?case by auto
next
  case (reachable_Delete t k' t' b)
  from Delete_wf [OF reachable_Delete.IH, of k'] reachable_Delete.hyps(2)
  show ?case by auto
qed

section \<open>Iteration\<close>

lemma unwind_simps [simp]:
  "unwind [] = []"
  "unwind (stack @ [m]) = m # inorder (right m) @ unwind stack"
  by (simp_all add: unwind_def)

lemma unwind_push_left: "unwind (push_left cur stack) = inorder cur @ unwind stack"
  by (induction cur stack rule: push_left.induct) simp_all

lemma inorder_loop_eq: "inorder_loop cur stack = inorder cur @ unwind stack"
proof (induction cur stack rule: inorder_loop.induct)
  case (1 cur stack)
  show ?case
  proof (cases "cur \<noteq> Nil \<or> stack \<noteq> []")
    case False
    then show ?thesis by (subst inorder_loop.simps) simp
  next
    case True
    let ?s = "push_left cur stack"
    from True have ne: "?s \<noteq> []" by (rule push_left_nonempty)
    from True have "inorder_loop cur stack = last ?s # inorder_loop (right (last ?s)) (butlast ?s)"
      by (subst inorder_loop.simps) simp
    also from "1.IH" [OF True] have "\<dots> = last ?s # inorder (right (last ?s)) @ unwind (butlast ?s)"
      by simp
    also have "\<dots> = unwind (butlast ?s @ [last ?s])"
      by simp
    also from ne have "\<dots> = unwind ?s" by simp
    finally show ?thesis by (simp add: unwind_push_left)
  qed
qed

lemma InOrder_inorder: "InOrder t = inorder (Root t)"
  by (simp add: InOrder_def inorder_loop_eq)

section \<open>Claims\<close>

text \<open>
  C1 (invariant preservation). Every tree built from the empty tree by \<^verbatim>\<open>Insert\<close> and
  \<^verbatim>\<open>Delete\<close> satisfies, at every node, the AVL balance condition
  \<open>|height(left) - height(right)| \<le> 1\<close> and the size recurrence
  \<open>size(n) = 1 + size(left) + size(right)\<close>, and the key sequence that \<^verbatim>\<open>InOrder\<close>
  yields is strictly ascending. The stored heights obey the height recurrence, so the
  balance condition is about the true heights.
\<close>

theorem invariant_preservation:
  "reachable t \<Longrightarrow>
     balanced (Root t) \<and> heights_ok (Root t) \<and> sizes_ok (Root t) \<and>
     sorted_wrt (<) (map key (InOrder t))"
proof -
  assume "reachable t"
  then have "wf_tree t" by (rule reachable_wf)
  then have "invar None (Root t)" by (simp add: wf_tree_def)
  then show ?thesis
    by (simp add: invar_def bst_def keys_def InOrder_inorder)
qed

theorem invariant_preservation_witness:
  "reachable \<lparr>Root = Node 1 (2::int) (20::int) 2 3
       (Node 0 1 10 1 1 Nil Nil (Some 1)) (Node 2 3 30 1 1 Nil Nil (Some 1)) None\<rparr> \<and>
   balanced (Node 1 (2::int) (20::int) 2 3
       (Node 0 1 10 1 1 Nil Nil (Some 1)) (Node 2 3 30 1 1 Nil Nil (Some 1)) None) \<and>
   sizes_ok (Node 1 (2::int) (20::int) 2 3
       (Node 0 1 10 1 1 Nil Nil (Some 1)) (Node 2 3 30 1 1 Nil Nil (Some 1)) None) \<and>
   sorted_wrt (<) (map key (InOrder \<lparr>Root = Node 1 (2::int) (20::int) 2 3
       (Node 0 1 10 1 1 Nil Nil (Some 1)) (Node 2 3 30 1 1 Nil Nil (Some 1)) None\<rparr>))"
proof -
  have r0: "reachable (New :: (int, int) tree)"
    by (rule reachable_New)
  have r1: "reachable \<lparr>Root = Node 0 (1::int) (10::int) 1 1 Nil Nil None\<rparr>"
    by (rule reachable_Insert [OF r0, of 0 1 10 _ True]) (simp_all add: New_def Insert_def)
  have r2: "reachable \<lparr>Root = Node 0 (1::int) (10::int) 2 2 Nil
      (Node 1 2 20 1 1 Nil Nil (Some 0)) None\<rparr>"
    by (rule reachable_Insert [OF r1, of 1 2 20 _ True]) (simp_all add: Insert_def rebalance_def)
  have r3: "reachable \<lparr>Root = Node 1 (2::int) (20::int) 2 3
       (Node 0 1 10 1 1 Nil Nil (Some 1)) (Node 2 3 30 1 1 Nil Nil (Some 1)) None\<rparr>"
    by (rule reachable_Insert [OF r2, of 2 3 30 _ True]) (simp_all add: Insert_def rebalance_def)
  from invariant_preservation [OF r3] r3 show ?thesis by simp
qed

section \<open>Search, length and the two mutators on a well-formed tree\<close>

lemma entries_keys: "(k', v') \<in> set (entries n) \<Longrightarrow> k' \<in> set (keys n)"
  by (force simp: keys_entries)

lemma search_absent: "bst n \<Longrightarrow> k' \<notin> set (keys n) \<Longrightarrow> search_loop n k' = (Nil, False)"
  by (induction n) (auto simp: bst_Node)

lemma search_present:
  "bst n \<Longrightarrow> (k', v') \<in> set (entries n) \<Longrightarrow>
   \<exists>m. search_loop n k' = (m, True) \<and> key m = k' \<and> val m = v'"
proof (induction n)
  case Nil
  then show ?case by simp
next
  case (Node a k v h s l r p)
  from Node.prems(1) have sub: "bst l" "bst r"
    and lk: "\<forall>x\<in>set (keys l). x < k" and kr: "\<forall>y\<in>set (keys r). k < y"
    by (simp_all add: bst_Node)
  consider (lt) "k' < k" | (gt) "\<not> k' < k" "k < k'" | (eq) "k' = k"
    by (cases k' k rule: linorder_cases) auto
  then show ?case
  proof cases
    case lt
    with kr have "k' \<notin> set (keys r)" by auto
    with entries_keys [of k' v' r] lt Node.prems(2) have "(k', v') \<in> set (entries l)" by auto
    from Node.IH(1) [OF sub(1) this] lt show ?thesis by simp
  next
    case gt
    with lk have "k' \<notin> set (keys l)" by auto
    with entries_keys [of k' v' l] gt Node.prems(2) have "(k', v') \<in> set (entries r)" by auto
    from Node.IH(2) [OF sub(2) this] gt show ?thesis by simp
  next
    case eq
    with lk kr have "k' \<notin> set (keys l)" "k' \<notin> set (keys r)" by auto
    with entries_keys [of k' v' l] entries_keys [of k' v' r] Node.prems(2) eq
    have "v' = v" by auto
    with eq show ?thesis by simp
  qed
qed

lemma Len_sizeOf: "Len t = sizeOf (Root t)"
  by (cases "Root t") (simp_all add: Len_def)

lemma wf_tree_parts:
  "wf_tree t \<Longrightarrow> bst (Root t) \<and> balanced (Root t) \<and> heights_ok (Root t) \<and> sizes_ok (Root t)"
  by (simp add: wf_tree_def invar_def)

lemma Insert_props:
  assumes "bst (Root t) \<and> balanced (Root t) \<and> heights_ok (Root t) \<and> sizes_ok (Root t)"
  shows "\<exists>n' b. Insert new t k' v' = Some (t\<lparr>Root := n'\<rparr>, b) \<and>
           (bst n' \<and> balanced n' \<and> heights_ok n' \<and> sizes_ok n') \<and>
           set (keys n') = insert k' (set (keys (Root t))) \<and>
           (b \<longleftrightarrow> k' \<notin> set (keys (Root t))) \<and>
           sizeOf n' = sizeOf (Root t) + (if b then 1 else 0) \<and>
           (k', v') \<in> set (entries n')"
proof -
  from assms have n: "bst (Root t)" "balanced (Root t)" "heights_ok (Root t)" "sizes_ok (Root t)"
    by simp_all
  from insertRec_total [OF n(3) n(2), of new k' v' None]
  obtain n' b where ins: "insertRec new (Root t) k' v' None = Some (n', b)"
    and "heights_ok n'" "balanced n'"
    by blast
  moreover from ins have "Insert new t k' v' = Some (t\<lparr>Root := n'\<rparr>, b)"
    by (simp add: Insert_def)
  moreover note insertRec_bst [OF ins n(1)]
    insertRec_set_keys [OF ins] insertRec_flag [OF ins n(1)] insertRec_entry [OF ins]
  moreover from insertRec_sizes [OF ins n(4)]
  have "sizes_ok n'" "sizeOf n' = sizeOf (Root t) + (if b then 1 else 0)" by blast+
  ultimately show ?thesis by blast
qed

lemma Delete_props:
  assumes "wf_tree t"
  shows "\<exists>n' b. Delete t k' = Some (t\<lparr>Root := n'\<rparr>, b) \<and>
           bst n' \<and> balanced n' \<and> heights_ok n' \<and> sizes_ok n' \<and> parents_ok None n' \<and>
           set (keys n') = set (keys (Root t)) - {k'} \<and>
           (b \<longleftrightarrow> k' \<in> set (keys (Root t))) \<and>
           sizeOf n' = sizeOf (Root t) - (if b then 1 else 0)"
proof -
  from assms have n: "bst (Root t)" "balanced (Root t)" "heights_ok (Root t)" "sizes_ok (Root t)"
    "parents_ok None (Root t)"
    by (simp_all add: wf_tree_def invar_def)
  from deleteRec_total [OF n(3) n(2), of k']
  obtain n' b where del: "deleteRec (Root t) k' = Some (n', b)"
    and "heights_ok n'" "balanced n'"
    by blast
  moreover note par = deleteRec_parents [OF del n(5)]
  moreover from del setParent_same [OF par] have "Delete t k' = Some (t\<lparr>Root := n'\<rparr>, b)"
    by (simp add: Delete_def)
  moreover from deleteRec_keys [OF del n(1)]
  have "bst n'" "set (keys n') = set (keys (Root t)) - {k'}" "b \<longleftrightarrow> k' \<in> set (keys (Root t))"
    by blast+
  moreover from deleteRec_sizes [OF del n(1) n(4)]
  have "sizes_ok n'" "sizeOf n' = sizeOf (Root t) - (if b then 1 else 0)" by blast+
  ultimately show ?thesis by blast
qed

text \<open>
  C2 (round trip). On a well-formed tree, \<^verbatim>\<open>Insert(t, k, v)\<close> returns, and a
  \<^verbatim>\<open>Search(t, k)\<close> after it finds a node with key \<open>k\<close> and value \<open>v\<close>;
  \<^verbatim>\<open>Delete(t, k)\<close> returns, and a \<^verbatim>\<open>Search(t, k)\<close> after it returns nil and
  not-found.
\<close>

theorem round_trip:
  assumes "wf_tree t"
  shows "(\<exists>t' b m. Insert new t k' v' = Some (t', b) \<and> Search t' k' = (m, True) \<and>
            key m = k' \<and> val m = v') \<and>
         (\<exists>t' b. Delete t k' = Some (t', b) \<and> Search t' k' = (Nil, False))"
proof
  from Insert_props [OF wf_tree_parts [OF assms], of new k' v']
  obtain n' b where ins: "Insert new t k' v' = Some (t\<lparr>Root := n'\<rparr>, b)"
    and n': "bst n'" "(k', v') \<in> set (entries n')"
    by blast
  from search_present [OF n'] obtain m
    where "search_loop n' k' = (m, True)" "key m = k'" "val m = v'"
    by blast
  with ins show "\<exists>t' b m. Insert new t k' v' = Some (t', b) \<and> Search t' k' = (m, True) \<and>
      key m = k' \<and> val m = v'"
    by (simp add: Search_def)
next
  from Delete_props [OF assms, of k']
  obtain n' b where del: "Delete t k' = Some (t\<lparr>Root := n'\<rparr>, b)"
    and n': "bst n'" "set (keys n') = set (keys (Root t)) - {k'}"
    by blast
  from n'(2) have "k' \<notin> set (keys n')" by simp
  from search_absent [OF n'(1) this] del
  show "\<exists>t' b. Delete t k' = Some (t', b) \<and> Search t' k' = (Nil, False)"
    by (simp add: Search_def)
qed


lemma wf_tree123: "wf_tree tree123"
  by (simp add: wf_tree_def invar_def bst_def)

theorem round_trip_witness:
  "wf_tree tree123 \<and>
   (\<exists>t' b m. Insert 3 tree123 4 40 = Some (t', b) \<and> Search t' 4 = (m, True) \<and>
            key m = 4 \<and> val m = 40) \<and>
   (\<exists>t' b. Delete tree123 4 = Some (t', b) \<and> Search t' 4 = (Nil, False))"
  using round_trip [OF wf_tree123, of 3 4 40] wf_tree123 by blast

text \<open>
  C10 (return flag and length). On a well-formed tree \<^verbatim>\<open>Insert\<close> returns, and it
  returns true exactly when \<^verbatim>\<open>Len\<close> has grown by one, false exactly when \<^verbatim>\<open>Len\<close>
  is unchanged; \<^verbatim>\<open>Delete\<close> returns, and it returns true exactly when \<^verbatim>\<open>Len\<close> has
  shrunk by one, false exactly when \<^verbatim>\<open>Len\<close> is unchanged.
\<close>

theorem flag_iff_length_change:
  assumes "wf_tree t"
  shows "(\<exists>t' b. Insert new t k' v' = Some (t', b) \<and>
            (b \<longleftrightarrow> Len t' = Len t + 1) \<and> (\<not> b \<longleftrightarrow> Len t' = Len t)) \<and>
         (\<exists>t' b. Delete t k' = Some (t', b) \<and>
            (b \<longleftrightarrow> Len t' = Len t - 1) \<and> (\<not> b \<longleftrightarrow> Len t' = Len t))"
proof
  from Insert_props [OF wf_tree_parts [OF assms], of new k' v']
  obtain n' b where ins: "Insert new t k' v' = Some (t\<lparr>Root := n'\<rparr>, b)"
    and sz: "sizeOf n' = sizeOf (Root t) + (if b then 1 else 0)"
    by blast
  from sz have "(b \<longleftrightarrow> Len (t\<lparr>Root := n'\<rparr>) = Len t + 1) \<and> (\<not> b \<longleftrightarrow> Len (t\<lparr>Root := n'\<rparr>) = Len t)"
    by (cases b) (simp_all add: Len_sizeOf)
  with ins show "\<exists>t' b. Insert new t k' v' = Some (t', b) \<and>
      (b \<longleftrightarrow> Len t' = Len t + 1) \<and> (\<not> b \<longleftrightarrow> Len t' = Len t)"
    by blast
next
  from Delete_props [OF assms, of k']
  obtain n' b where del: "Delete t k' = Some (t\<lparr>Root := n'\<rparr>, b)"
    and sz: "sizeOf n' = sizeOf (Root t) - (if b then 1 else 0)"
    by blast
  from sz have "(b \<longleftrightarrow> Len (t\<lparr>Root := n'\<rparr>) = Len t - 1) \<and> (\<not> b \<longleftrightarrow> Len (t\<lparr>Root := n'\<rparr>) = Len t)"
    by (cases b) (simp_all add: Len_sizeOf)
  with del show "\<exists>t' b. Delete t k' = Some (t', b) \<and>
      (b \<longleftrightarrow> Len t' = Len t - 1) \<and> (\<not> b \<longleftrightarrow> Len t' = Len t)"
    by blast
qed

theorem flag_iff_length_change_witness:
  "wf_tree tree123 \<and>
   (\<exists>t' b. Insert 3 tree123 2 40 = Some (t', b) \<and>
            (b \<longleftrightarrow> Len t' = Len tree123 + 1) \<and> (\<not> b \<longleftrightarrow> Len t' = Len tree123)) \<and>
   (\<exists>t' b. Delete tree123 2 = Some (t', b) \<and>
            (b \<longleftrightarrow> Len t' = Len tree123 - 1) \<and> (\<not> b \<longleftrightarrow> Len t' = Len tree123))"
  using flag_iff_length_change [OF wf_tree123, of 3 2 40] wf_tree123 by blast

text \<open>
  C7 (overwrite). As stated the claim fails when \<open>k\<close> is already in the tree: the first
  \<^verbatim>\<open>Insert\<close> then overwrites and returns false.
\<close>

theorem overwrite_first_insert_counterexample:
  "Insert 1 \<lparr>Root = Node 0 (1::int) (10::int) 1 1 Nil Nil None\<rparr> 1 11 =
     Some (\<lparr>Root = Node 0 1 11 1 1 Nil Nil None\<rparr>, False)"
  by (simp add: Insert_def)

text \<open>
  C7, amended. On a well-formed tree, \<^verbatim>\<open>Insert(t, k, v1)\<close> returns true exactly when
  \<open>k\<close> was not in the tree; the \<^verbatim>\<open>Insert(t, k, v2)\<close> after it returns false, after
  which \<^verbatim>\<open>Search(t, k)\<close> finds a node with value \<open>v2\<close> and \<^verbatim>\<open>Len\<close> is what it was
  after the first insert.
\<close>

theorem overwrite_in_place:
  assumes "wf_tree t"
  shows "\<exists>t1 b1 t2 m.
           Insert new1 t k' v1 = Some (t1, b1) \<and> (b1 \<longleftrightarrow> k' \<notin> set (keys (Root t))) \<and>
           Insert new2 t1 k' v2 = Some (t2, False) \<and>
           Search t2 k' = (m, True) \<and> val m = v2 \<and> Len t2 = Len t1"
proof -
  from Insert_props [OF wf_tree_parts [OF assms], of new1 k' v1]
  obtain n1 b1 where ins1: "Insert new1 t k' v1 = Some (t\<lparr>Root := n1\<rparr>, b1)"
    and n1: "bst n1 \<and> balanced n1 \<and> heights_ok n1 \<and> sizes_ok n1"
    and k1: "set (keys n1) = insert k' (set (keys (Root t)))"
    and b1: "b1 \<longleftrightarrow> k' \<notin> set (keys (Root t))"
    by blast
  let ?t1 = "t\<lparr>Root := n1\<rparr>"
  from n1 have "bst (Root ?t1) \<and> balanced (Root ?t1) \<and> heights_ok (Root ?t1) \<and> sizes_ok (Root ?t1)"
    by simp
  from Insert_props [OF this, of new2 k' v2]
  obtain n2 b2 where ins2: "Insert new2 ?t1 k' v2 = Some (?t1\<lparr>Root := n2\<rparr>, b2)"
    and n2: "bst n2" "(k', v2) \<in> set (entries n2)"
    and b2: "b2 \<longleftrightarrow> k' \<notin> set (keys (Root ?t1))"
    and sz: "sizeOf n2 = sizeOf (Root ?t1) + (if b2 then 1 else 0)"
    by blast
  from b2 k1 have nb2: "\<not> b2" by simp
  from search_present [OF n2] obtain m
    where m: "search_loop n2 k' = (m, True)" "val m = v2"
    by blast
  from sz nb2 have "Len (?t1\<lparr>Root := n2\<rparr>) = Len ?t1" by (simp add: Len_sizeOf)
  with ins1 ins2 nb2 b1 m show ?thesis by (simp add: Search_def)
qed

theorem overwrite_in_place_witness:
  "wf_tree tree123 \<and>
   (\<exists>t1 b1 t2 m.
      Insert 3 tree123 4 40 = Some (t1, b1) \<and> (b1 \<longleftrightarrow> 4 \<notin> set (keys (Root tree123))) \<and>
      Insert 4 t1 4 41 = Some (t2, False) \<and>
      Search t2 4 = (m, True) \<and> val m = 41 \<and> Len t2 = Len t1)"
  using overwrite_in_place [OF wf_tree123, of 3 4 40 4 41] wf_tree123 by blast

lemma rebalance_unchanged:
  assumes "balanced (Node a k v h s l r p)" "heights_ok (Node a k v h s l r p)"
    "sizes_ok (Node a k v h s l r p)"
  shows "rebalance (Node a k v h s l r p) = Some (Node a k v h s l r p)"
proof -
  from assms(1) have "\<not> height l - height r > 1" "\<not> height l - height r < - 1"
    by auto
  from rebalance_none [OF this, of a k v h s p] assms(2,3) show ?thesis
    by (simp add: mk_def)
qed

lemma deleteRec_absent:
  "bst n \<Longrightarrow> balanced n \<Longrightarrow> heights_ok n \<Longrightarrow> sizes_ok n \<Longrightarrow> k' \<notin> set (keys n) \<Longrightarrow>
   deleteRec n k' = Some (n, False)"
proof (induction n)
  case Nil
  show ?case by simp
next
  case (Node a k v h s l r p)
  from Node.prems(1) have sub: "bst l" "bst r" by (simp_all add: bst_Node)
  from Node.prems(2-4) have inv: "balanced l" "heights_ok l" "sizes_ok l"
    "balanced r" "heights_ok r" "sizes_ok r"
    by simp_all
  from Node.prems(5) have absent: "k' \<notin> set (keys l)" "k' \<notin> set (keys r)" "k' \<noteq> k"
    by simp_all
  note same = rebalance_unchanged [OF Node.prems(2-4)]
  consider (lt) "k' < k" | (gt) "\<not> k' < k" "k < k'"
    using absent(3) by (cases k' k rule: linorder_cases) auto
  then show ?case
  proof cases
    case lt
    from Node.IH(1) [OF sub(1) inv(1-3) absent(1)] lt same show ?thesis by simp
  next
    case gt
    from Node.IH(2) [OF sub(2) inv(4-6) absent(2)] gt same show ?thesis by simp
  qed
qed

text \<open>
  C9 (deleting an absent key). On a well-formed tree that does not hold the key,
  \<^verbatim>\<open>Delete\<close> returns false and the tree after the call is the tree before it: the same
  nodes with the same keys, values, metadata and links.
\<close>

theorem delete_absent_unchanged:
  assumes "wf_tree t" "k' \<notin> set (keys (Root t))"
  shows "Delete t k' = Some (t, False)"
proof -
  from assms(1) have n: "bst (Root t)" "balanced (Root t)" "heights_ok (Root t)"
    "sizes_ok (Root t)" "parents_ok None (Root t)"
    by (simp_all add: wf_tree_def invar_def)
  from deleteRec_absent [OF n(1-4) assms(2)] setParent_same [OF n(5)]
  show ?thesis by (simp add: Delete_def)
qed

theorem delete_absent_unchanged_witness:
  "wf_tree tree123 \<and> 4 \<notin> set (keys (Root tree123)) \<and> Delete tree123 4 = Some (tree123, False)"
proof -
  have absent: "4 \<notin> set (keys (Root tree123))" by simp
  from delete_absent_unchanged [OF wf_tree123 absent] wf_tree123 absent show ?thesis
    by blast
qed

section \<open>Order statistics\<close>

lemma sizeOf_length: "sizes_ok n \<Longrightarrow> sizeOf n = int (length (inorder n))"
  by (induction n) simp_all

lemma filter_none: "\<forall>y\<in>set ys. \<not> P y \<Longrightarrow> filter P ys = []"
  by (induction ys) simp_all

lemma filter_all: "\<forall>y\<in>set ys. P y \<Longrightarrow> filter P ys = ys"
  by (induction ys) simp_all

lemma rank_loop_count:
  "bst n \<Longrightarrow> sizes_ok n \<Longrightarrow>
   rank_loop n rank k' = rank + int (length (filter (\<lambda>x. x < k') (keys n)))"
proof (induction n arbitrary: rank)
  case Nil
  show ?case by simp
next
  case (Node a k v h s l r p)
  from Node.prems(1) have sub: "bst l" "bst r"
    and lk: "\<forall>x\<in>set (keys l). x < k" and kr: "\<forall>y\<in>set (keys r). k < y"
    by (simp_all add: bst_Node)
  from Node.prems(2) have so: "sizes_ok l" "sizes_ok r" by simp_all
  from sizeOf_length [OF so(1)] have ls: "(if l \<noteq> Nil then siz l else 0) = int (length (keys l))"
    by (simp add: sizeOf_if length_keys)
  consider (lt) "k' < k" | (eq) "k' = k" | (gt) "\<not> k' < k" "k' \<noteq> k" "k < k'"
    by (cases k' k rule: linorder_cases) auto
  then show ?case
  proof cases
    case lt
    with kr have "\<forall>y\<in>set (keys r). \<not> y < k'" by auto
    then have "filter (\<lambda>x. x < k') (keys r) = []" by (rule filter_none)
    with Node.IH(1) [OF sub(1) so(1), of rank] lt show ?thesis by simp
  next
    case eq
    with kr have "\<forall>y\<in>set (keys r). \<not> y < k'" by auto
    then have "filter (\<lambda>x. x < k') (keys r) = []" by (rule filter_none)
    moreover from eq lk have "\<forall>x\<in>set (keys l). x < k'" by simp
    then have "filter (\<lambda>x. x < k') (keys l) = keys l" by (rule filter_all)
    ultimately show ?thesis using eq ls by (simp del: if_split)
  next
    case gt
    with lk have "\<forall>x\<in>set (keys l). x < k'" by auto
    then have "filter (\<lambda>x. x < k') (keys l) = keys l" by (rule filter_all)
    with Node.IH(2) [OF sub(2) so(2), of "rank + (int (length (keys l)) + 1)"] gt ls
    show ?thesis by (simp add: Let_def)
  qed
qed

lemma kth_loop_nth:
  "sizes_ok n \<Longrightarrow>
   kth_loop n i = (if 0 \<le> i \<and> i < sizeOf n then (inorder n ! nat i, True) else (Nil, False))"
proof (induction n arbitrary: i)
  case Nil
  show ?case by simp
next
  case (Node a k v h s l r p)
  from Node.prems have so: "sizes_ok l" "sizes_ok r" and s: "s = 1 + sizeOf l + sizeOf r"
    by simp_all
  note ll = sizeOf_length [OF so(1)] and lr = sizeOf_length [OF so(2)]
  have ls: "(if l \<noteq> Nil then siz l else 0) = sizeOf l" by (rule sizeOf_if)
  let ?N = "Node a k v h s l r p"
  consider (lt) "i < sizeOf l" | (gt) "\<not> i < sizeOf l" "sizeOf l < i" | (eq) "i = sizeOf l"
    by linarith
  then show ?case
  proof cases
    case lt
    have "kth_loop ?N i = kth_loop l i" using lt ls by (simp add: Let_def)
    also note Node.IH(1) [OF so(1), of i]
    finally show ?thesis using lt ll lr s by (auto simp: nth_append)
  next
    case gt
    have "kth_loop ?N i = kth_loop r (i - (sizeOf l + 1))" using gt ls by (simp add: Let_def)
    also note Node.IH(2) [OF so(2), of "i - (sizeOf l + 1)"]
    finally have k: "kth_loop ?N i =
        (if 0 \<le> i - (sizeOf l + 1) \<and> i - (sizeOf l + 1) < sizeOf r
         then (inorder r ! nat (i - (sizeOf l + 1)), True) else (Nil, False))" .
    show ?thesis
    proof (cases "i < s")
      case True
      with gt s ll have idx: "nat i = length (inorder l) + Suc (nat (i - (sizeOf l + 1)))"
        by simp
      have "inorder ?N ! nat i = inorder r ! nat (i - (sizeOf l + 1))"
        unfolding idx by (simp add: nth_append)
      with k True gt s ll show ?thesis by simp
    next
      case False
      with k gt s ll show ?thesis by simp
    qed
  next
    case eq
    have "kth_loop ?N i = (?N, True)" using eq ls by (simp add: Let_def)
    moreover from eq ll have "nat i = length (inorder l)" by simp
    then have "inorder ?N ! nat i = ?N" by simp
    ultimately show ?thesis using eq ll lr s by simp
  qed
qed

text \<open>
  C3 (rank). On a well-formed tree \<^verbatim>\<open>Rank(tree, key)\<close> is the number of keys of the
  tree that are strictly less than \<open>key\<close>, whether or not \<open>key\<close> is in the tree. The
  keys are those \<^verbatim>\<open>InOrder\<close> yields, in ascending order without repetition, so this is
  also the position of \<open>key\<close> among them.
\<close>

theorem rank_counts_smaller_keys:
  assumes "wf_tree t"
  shows "Rank t k' = int (length (filter (\<lambda>x. x < k') (map key (InOrder t)))) \<and>
         Rank t k' = int (card {x \<in> set (map key (InOrder t)). x < k'})"
proof -
  from assms have n: "bst (Root t)" "sizes_ok (Root t)"
    by (simp_all add: wf_tree_def invar_def)
  have ks: "map key (InOrder t) = keys (Root t)"
    by (simp add: InOrder_inorder keys_def)
  from n(1) have "distinct (keys (Root t))"
    by (simp add: bst_def strict_sorted_iff)
  then have "distinct (filter (\<lambda>x. x < k') (keys (Root t)))" by simp
  from distinct_card [OF this]
  have "card {x \<in> set (keys (Root t)). x < k'} = length (filter (\<lambda>x. x < k') (keys (Root t)))"
    by simp
  with rank_loop_count [OF n, of 0 k'] ks show ?thesis
    by (simp add: Rank_def)
qed

theorem rank_counts_smaller_keys_witness:
  "wf_tree tree123 \<and>
   Rank tree123 3 = int (length (filter (\<lambda>x. x < 3) (map key (InOrder tree123)))) \<and>
   Rank tree123 3 = int (card {x \<in> set (map key (InOrder tree123)). x < 3})"
  using rank_counts_smaller_keys [OF wf_tree123, of 3] wf_tree123 by blast

text \<open>
  C4 (k-th). On a well-formed tree, \<^verbatim>\<open>Len\<close> is the number of nodes \<^verbatim>\<open>InOrder\<close>
  yields; for \<open>0 \<le> k < Len(tree)\<close>, \<^verbatim>\<open>Kth(tree, k)\<close> finds the node at position \<open>k\<close>
  of that ascending sequence; for every other \<open>k\<close>, negative or at least \<open>Len(tree)\<close>,
  it returns nil and not-found.
\<close>

theorem kth_order_statistic:
  assumes "wf_tree t"
  shows "Len t = int (length (InOrder t)) \<and>
         (0 \<le> i \<and> i < Len t \<longrightarrow> Kth t i = (InOrder t ! nat i, True)) \<and>
         (i < 0 \<or> Len t \<le> i \<longrightarrow> Kth t i = (Nil, False))"
proof -
  from assms have n: "sizes_ok (Root t)"
    by (simp add: wf_tree_def invar_def)
  from kth_loop_nth [OF n, of i] sizeOf_length [OF n] show ?thesis
    by (auto simp: Kth_def Len_sizeOf InOrder_inorder)
qed

theorem kth_order_statistic_witness:
  "wf_tree tree123 \<and> Len tree123 = 3 \<and>
   (0 \<le> (1::int) \<and> 1 < Len tree123) \<and> Kth tree123 1 = (InOrder tree123 ! nat 1, True) \<and>
   (- 1 < (0::int) \<or> Len tree123 \<le> - 1) \<and> Kth tree123 (- 1) = (Nil, False) \<and>
   ((3::int) < 0 \<or> Len tree123 \<le> 3) \<and> Kth tree123 3 = (Nil, False)"
proof -
  have len: "Len tree123 = 3" by (simp add: Len_def)
  from kth_order_statistic [OF wf_tree123, of 1] kth_order_statistic [OF wf_tree123, of "- 1"]
    kth_order_statistic [OF wf_tree123, of 3] len wf_tree123
  show ?thesis by simp
qed

section \<open>Range iteration\<close>

lemma range_loop_filter:
  "sorted_wrt (<) (map key (inorder cur @ unwind stack)) \<Longrightarrow>
   range_loop cur stack lo hi =
     filter (\<lambda>m. lo \<le> key m \<and> key m < hi) (inorder cur @ unwind stack)"
proof (induction cur stack lo hi rule: range_loop.induct)
  case (1 cur stack lo hi)
  let ?P = "\<lambda>m. lo \<le> key m \<and> key m < hi"
  show ?case
  proof (cases "cur \<noteq> Nil \<or> stack \<noteq> []")
    case False
    then show ?thesis by (subst range_loop.simps) simp
  next
    case True
    let ?s = "push_left cur stack"
    let ?n = "last ?s"
    let ?cur' = "if hi \<le> key ?n then Nil else right ?n"
    from True have ne: "?s \<noteq> []" by (rule push_left_nonempty)
    then have "unwind ?s = unwind (butlast ?s @ [?n])" by simp
    then have whole: "inorder cur @ unwind stack = ?n # inorder (right ?n) @ unwind (butlast ?s)"
      by (simp add: unwind_push_left)
    with "1.prems" have srt: "sorted_wrt (<) (map key (?n # inorder (right ?n) @ unwind (butlast ?s)))"
      by simp
    then have above: "\<forall>m\<in>set (inorder (right ?n)). key ?n < key m"
      and rest: "sorted_wrt (<) (map key (inorder (right ?n) @ unwind (butlast ?s)))"
      and rest': "sorted_wrt (<) (map key (unwind (butlast ?s)))"
      by (auto simp: sorted_wrt_append)
    from rest rest' have "sorted_wrt (<) (map key (inorder ?cur' @ unwind (butlast ?s)))"
      by simp
    from "1.IH" [OF True this]
    have ih: "range_loop ?cur' (butlast ?s) lo hi = filter ?P (inorder ?cur' @ unwind (butlast ?s))" .
    have pruned: "filter ?P (inorder ?cur') = filter ?P (inorder (right ?n))"
    proof (cases "hi \<le> key ?n")
      case False
      then show ?thesis by simp
    next
      case True
      with above have "\<forall>m\<in>set (inorder (right ?n)). \<not> ?P m" by auto
      then have "filter ?P (inorder (right ?n)) = []" by (rule filter_none)
      with True show ?thesis by simp
    qed
    from True have "range_loop cur stack lo hi =
        (if ?P ?n then [?n] else []) @ range_loop ?cur' (butlast ?s) lo hi"
      by (subst range_loop.simps) simp
    also have "\<dots> = filter ?P (?n # inorder (right ?n) @ unwind (butlast ?s))"
      using ih pruned by simp
    finally show ?thesis using whole by simp
  qed
qed

text \<open>
  C5 (range). On a well-formed tree the sequence \<^verbatim>\<open>Range(tree, from, to)\<close> yields is
  the sequence \<^verbatim>\<open>InOrder(tree)\<close> yields with exactly the entries kept whose key \<open>k\<close>
  satisfies \<open>from \<le> k < to\<close>, in the same order.
\<close>

theorem range_is_filtered_inorder:
  assumes "wf_tree t"
  shows "Range t lo hi = filter (\<lambda>m. lo \<le> key m \<and> key m < hi) (InOrder t)"
proof -
  from assms have "sorted_wrt (<) (map key (inorder (Root t) @ unwind []))"
    by (simp add: wf_tree_def invar_def bst_def keys_def)
  from range_loop_filter [OF this, of lo hi] show ?thesis
    by (simp add: Range_def InOrder_inorder)
qed

theorem range_is_filtered_inorder_witness:
  "wf_tree tree123 \<and>
   Range tree123 2 3 = filter (\<lambda>m. 2 \<le> key m \<and> key m < 3) (InOrder tree123)"
  using range_is_filtered_inorder [OF wf_tree123, of 2 3] wf_tree123 by blast

section \<open>Parent links\<close>

lemma parents_ok_root: "parents_ok q n \<Longrightarrow> n \<noteq> Nil \<Longrightarrow> parent n = q"
  by (cases n) simp_all

text \<open>
  C6 (back-reference consistency). On a well-formed tree each mutating operation returns
  a tree in which every child's \<^verbatim>\<open>parent\<close> is the address of the node it is a child
  of and the root's \<^verbatim>\<open>parent\<close> is absent: \<^verbatim>\<open>Insert\<close>, \<^verbatim>\<open>Delete\<close> (after which the
  root, if there is one, has no parent) and \<^verbatim>\<open>Clear\<close>. The queries return no new tree.
\<close>

theorem parent_links_consistent:
  assumes "wf_tree t"
  shows "(\<exists>t' b. Insert new t k' v' = Some (t', b) \<and> parents_ok None (Root t')) \<and>
         (\<exists>t' b. Delete t k' = Some (t', b) \<and> parents_ok None (Root t') \<and>
            (Root t' \<noteq> Nil \<longrightarrow> parent (Root t') = None)) \<and>
         parents_ok None (Root (Clear t))"
proof (intro conjI)
  from assms have n: "balanced (Root t)" "heights_ok (Root t)" "parents_ok None (Root t)"
    by (simp_all add: wf_tree_def invar_def)
  from insertRec_total [OF n(2) n(1), of new k' v' None]
  obtain n' b where ins: "insertRec new (Root t) k' v' None = Some (n', b)"
    by blast
  from insertRec_parents [OF ins n(3)] ins
  show "\<exists>t' b. Insert new t k' v' = Some (t', b) \<and> parents_ok None (Root t')"
    by (simp add: Insert_def)
next
  from Delete_props [OF assms, of k']
  obtain n' b where del: "Delete t k' = Some (t\<lparr>Root := n'\<rparr>, b)" and par: "parents_ok None n'"
    by blast
  from parents_ok_root [OF par] have "n' \<noteq> Nil \<longrightarrow> parent n' = None" by blast
  with del par
  show "\<exists>t' b. Delete t k' = Some (t', b) \<and> parents_ok None (Root t') \<and>
      (Root t' \<noteq> Nil \<longrightarrow> parent (Root t') = None)"
    by simp
next
  show "parents_ok None (Root (Clear t))"
    by (simp add: Clear_def)
qed

theorem parent_links_consistent_witness:
  "wf_tree tree123 \<and>
   (\<exists>t' b. Insert 3 tree123 4 40 = Some (t', b) \<and> parents_ok None (Root t')) \<and>
   (\<exists>t' b. Delete tree123 2 = Some (t', b) \<and> parents_ok None (Root t') \<and>
      (Root t' \<noteq> Nil \<longrightarrow> parent (Root t') = None)) \<and>
   parents_ok None (Root (Clear tree123))"
proof -
  from parent_links_consistent [OF wf_tree123, of 3 4 40]
  have "\<exists>t' b. Insert 3 tree123 4 40 = Some (t', b) \<and> parents_ok None (Root t')"
    by blast
  moreover from parent_links_consistent [OF wf_tree123, of _ 2]
  have "(\<exists>t' b. Delete tree123 2 = Some (t', b) \<and> parents_ok None (Root t') \<and>
      (Root t' \<noteq> Nil \<longrightarrow> parent (Root t') = None)) \<and> parents_ok None (Root (Clear tree123))"
    by blast
  ultimately show ?thesis using wf_tree123 by blast
qed

section \<open>Navigation\<close>

lemma floor_ceiling_search:
  "bst n \<Longrightarrow> k' \<in> set (keys n) \<Longrightarrow>
   floor_loop n res k' = search_loop n k' \<and> ceiling_loop n res k' = search_loop n k'"
proof (induction n arbitrary: res)
  case Nil
  then show ?case by simp
next
  case (Node a k v h s l r p)
  from Node.prems(1) have sub: "bst l" "bst r"
    and lk: "\<forall>x\<in>set (keys l). x < k" and kr: "\<forall>y\<in>set (keys r). k < y"
    by (simp_all add: bst_Node)
  consider (lt) "k' < k" "k' \<noteq> k" | (gt) "\<not> k' < k" "k' \<noteq> k" "k < k'" | (eq) "k' = k"
    by (cases k' k rule: linorder_cases) auto
  then show ?case
  proof cases
    case lt
    with kr Node.prems(2) have "k' \<in> set (keys l)" by auto
    from Node.IH(1) [OF sub(1) this] lt show ?thesis by simp
  next
    case gt
    with lk Node.prems(2) have "k' \<in> set (keys r)" by auto
    from Node.IH(2) [OF sub(2) this] gt show ?thesis by simp
  next
    case eq
    then show ?thesis by simp
  qed
qed

lemma search_found:
  "bst n \<Longrightarrow> k' \<in> set (keys n) \<Longrightarrow>
   \<exists>m. search_loop n k' = (m, True) \<and> m \<noteq> Nil \<and> key m = k' \<and> m \<in> set (inorder n)"
proof (induction n)
  case Nil
  then show ?case by simp
next
  case (Node a k v h s l r p)
  from Node.prems(1) have sub: "bst l" "bst r"
    and lk: "\<forall>x\<in>set (keys l). x < k" and kr: "\<forall>y\<in>set (keys r). k < y"
    by (simp_all add: bst_Node)
  consider (lt) "k' < k" "k' \<noteq> k" | (gt) "\<not> k' < k" "k' \<noteq> k" "k < k'" | (eq) "k' = k"
    by (cases k' k rule: linorder_cases) auto
  then show ?case
  proof cases
    case lt
    with kr Node.prems(2) have "k' \<in> set (keys l)" by auto
    from Node.IH(1) [OF sub(1) this] lt show ?thesis by auto
  next
    case gt
    with lk Node.prems(2) have "k' \<in> set (keys r)" by auto
    from Node.IH(2) [OF sub(2) this] gt show ?thesis by auto
  next
    case eq
    then show ?thesis by simp
  qed
qed

lemma findNode_absent: "a' \<notin> set (addrs n) \<Longrightarrow> findNode n a' = None"
  by (induction n) auto

lemma addr_in_addrs: "m \<in> set (inorder n) \<Longrightarrow> addr m \<in> set (addrs n)"
  by (simp add: addrs_def)

lemma findNode_member:
  "distinct (addrs n) \<Longrightarrow> m \<in> set (inorder n) \<Longrightarrow> findNode n (addr m) = Some m"
proof (induction n)
  case Nil
  then show ?case by simp
next
  case (Node a k v h s l r p)
  from Node.prems(1) have d: "distinct (addrs l)" "distinct (addrs r)"
    "a \<notin> set (addrs l)" "a \<notin> set (addrs r)" "set (addrs l) \<inter> set (addrs r) = {}"
    by auto
  from Node.prems(2) consider (root) "m = Node a k v h s l r p"
    | (left) "m \<in> set (inorder l)" | (right) "m \<in> set (inorder r)"
    by auto
  then show ?case
  proof cases
    case root
    then show ?thesis by simp
  next
    case left
    from addr_in_addrs [OF left] d(3) have "a \<noteq> addr m" by auto
    with Node.IH(1) [OF d(1) left] show ?thesis by simp
  next
    case right
    from addr_in_addrs [OF right] d(4,5) have "a \<noteq> addr m" "addr m \<notin> set (addrs l)" by auto
    with Node.IH(2) [OF d(2) right] findNode_absent [of "addr m" l] show ?thesis by simp
  qed
qed

lemma root_in_inorder: "n \<noteq> Nil \<Longrightarrow> n \<in> set (inorder n)"
  by (cases n) simp_all

lemma higher_loop_min:
  "\<forall>y\<in>set (keys n). k' < y \<Longrightarrow> minNode n = Some m \<Longrightarrow> higher_loop n res k' = (m, True)"
proof (induction n arbitrary: res)
  case Nil
  then show ?case by simp
next
  case (Node a k v h s l r p)
  from Node.prems(1) have lt: "k' < k" and all: "\<forall>y\<in>set (keys l). k' < y" by simp_all
  show ?case
  proof (cases "l = Nil")
    case True
    with Node.prems(2) have m: "m = Node a k v h s l r p" by simp
    show ?thesis unfolding m using lt True by simp
  next
    case False
    with Node.prems(2) have "minNode l = Some m" by simp
    from Node.IH(1) [OF all this] lt show ?thesis by simp
  qed
qed

lemma higher_loop_right_subtree:
  "bst t \<Longrightarrow> k' \<in> set (keys t) \<Longrightarrow> search_loop t k' = (n, True) \<Longrightarrow>
   minNode (right n) = Some m \<Longrightarrow> higher_loop t res k' = (m, True)"
proof (induction t arbitrary: res)
  case Nil
  then show ?case by simp
next
  case (Node a k v h s l r p)
  from Node.prems(1) have sub: "bst l" "bst r"
    and lk: "\<forall>x\<in>set (keys l). x < k" and kr: "\<forall>y\<in>set (keys r). k < y"
    by (simp_all add: bst_Node)
  consider (lt) "k' < k" "k' \<noteq> k" | (gt) "\<not> k' < k" "k' \<noteq> k" "k < k'" | (eq) "k' = k"
    by (cases k' k rule: linorder_cases) auto
  then show ?case
  proof cases
    case lt
    with kr Node.prems(2) have "k' \<in> set (keys l)" by auto
    moreover from lt Node.prems(3) have "search_loop l k' = (n, True)" by simp
    ultimately show ?thesis using Node.IH(1) [OF sub(1) _ _ Node.prems(4)] lt by simp
  next
    case gt
    with lk Node.prems(2) have "k' \<in> set (keys r)" by auto
    moreover from gt Node.prems(3) have "search_loop r k' = (n, True)" by simp
    ultimately show ?thesis using Node.IH(2) [OF sub(2) _ _ Node.prems(4)] gt by simp
  next
    case eq
    with Node.prems(3,4) have "minNode r = Some m" by auto
    from higher_loop_min [OF _ this, of k' res] kr eq show ?thesis by simp
  qed
qed

lemma successor_loop_step:
  assumes "findNode root a = Some pn"
  shows "successor_loop root n (Some a) =
           (if samePtr n (right pn) then successor_loop root pn (parent pn) else Some (pn, True))"
  using assms by (subst successor_loop.simps) simp

lemma successor_loop_None: "successor_loop root n None = Some (Nil, False)"
  by (subst successor_loop.simps) simp

text \<open>
  The climb of \<^verbatim>\<open>Successor\<close> from a node \<open>n\<close> without right child, seen from a subtree
  \<open>t\<close> that holds \<open>n\<close>: either the climb leaves \<open>t\<close> through its root, and the descent
  of \<^verbatim>\<open>Higher\<close> through \<open>t\<close> records no candidate; or both end at the same node of
  \<open>t\<close>.
\<close>

lemma successor_climb:
  assumes "distinct (addrs root)"
  shows "set (inorder t) \<subseteq> set (inorder root) \<Longrightarrow> distinct (addrs t) \<Longrightarrow> bst t \<Longrightarrow>
    parents_ok q t \<Longrightarrow> k' \<in> set (keys t) \<Longrightarrow> search_loop t k' = (n, True) \<Longrightarrow>
    right n = Nil \<Longrightarrow>
    ((\<forall>res. higher_loop t res k' = (res, res \<noteq> Nil)) \<and>
       successor_loop root n (parent n) = successor_loop root t q) \<or>
    (\<exists>m. (\<forall>res. higher_loop t res k' = (m, True)) \<and>
       successor_loop root n (parent n) = Some (m, True))"
proof (induction t arbitrary: q)
  case Nil
  then show ?case by simp
next
  case (Node a k v h s l r p)
  let ?T = "Node a k v h s l r p"
  from Node.prems(3) have sub: "bst l" "bst r"
    and lk: "\<forall>x\<in>set (keys l). x < k" and kr: "\<forall>y\<in>set (keys r). k < y"
    by (simp_all add: bst_Node)
  from Node.prems(2) have d: "distinct (addrs l)" "distinct (addrs r)"
    "set (addrs l) \<inter> set (addrs r) = {}"
    by auto
  from Node.prems(1) have incl: "set (inorder l) \<subseteq> set (inorder root)"
    "set (inorder r) \<subseteq> set (inorder root)" "?T \<in> set (inorder root)"
    by auto
  from Node.prems(4) have par: "p = q" "parents_ok (Some a) l" "parents_ok (Some a) r"
    by simp_all
  from findNode_member [OF assms incl(3)] have find: "findNode root a = Some ?T" by simp
  consider (lt) "k' < k" "k' \<noteq> k" | (gt) "\<not> k' < k" "k' \<noteq> k" "k < k'" | (eq) "k' = k"
    by (cases k' k rule: linorder_cases) auto
  then show ?case
  proof cases
    case eq
    with Node.prems(6) have n: "n = ?T" by simp
    with Node.prems(7) have "r = Nil" by simp
    with eq n par(1) show ?thesis by simp
  next
    case lt
    with kr Node.prems(5) have kin: "k' \<in> set (keys l)" by auto
    then have lne: "l \<noteq> Nil" by auto
    from lt Node.prems(6) have sl: "search_loop l k' = (n, True)" by simp
    have hl: "higher_loop ?T res k' = higher_loop l ?T k'" for res
      using lt by simp
    from Node.IH(1) [OF incl(1) d(1) sub(1) par(2) kin sl Node.prems(7)]
    show ?thesis
    proof
      assume out: "(\<forall>res. higher_loop l res k' = (res, res \<noteq> Nil)) \<and>
        successor_loop root n (parent n) = successor_loop root l (Some a)"
      have "\<not> samePtr l r"
      proof (cases r)
        case Nil
        then show ?thesis by simp
      next
        case rN: (Node ra rk rv rh rs rl rr rp)
        from root_in_inorder [OF lne] have "addr l \<in> set (addrs l)" by (rule addr_in_addrs)
        moreover from rN have "ra \<in> set (addrs r)" by simp
        ultimately have "addr l \<noteq> ra" using d(3) by auto
        with rN show ?thesis by simp
      qed
      with successor_loop_step [OF find, of l]
      have "successor_loop root l (Some a) = Some (?T, True)" by simp
      moreover have "higher_loop ?T res k' = (?T, True)" for res
        unfolding hl using out by simp
      ultimately have "(\<forall>res. higher_loop ?T res k' = (?T, True)) \<and>
        successor_loop root n (parent n) = Some (?T, True)"
        using out by simp
      then show ?thesis by blast
    next
      assume "\<exists>m. (\<forall>res. higher_loop l res k' = (m, True)) \<and>
        successor_loop root n (parent n) = Some (m, True)"
      then obtain m where m: "\<forall>res. higher_loop l res k' = (m, True)"
        "successor_loop root n (parent n) = Some (m, True)"
        by blast
      have "higher_loop ?T res k' = (m, True)" for res
        unfolding hl using m(1) by blast
      with m(2) show ?thesis by blast
    qed
  next
    case gt
    with lk Node.prems(5) have kin: "k' \<in> set (keys r)" by auto
    then have rne: "r \<noteq> Nil" by auto
    from gt Node.prems(6) have sr: "search_loop r k' = (n, True)" by simp
    have hr: "higher_loop ?T res k' = higher_loop r res k'" for res
      using gt by simp
    from Node.IH(2) [OF incl(2) d(2) sub(2) par(3) kin sr Node.prems(7)]
    show ?thesis
    proof
      assume out: "(\<forall>res. higher_loop r res k' = (res, res \<noteq> Nil)) \<and>
        successor_loop root n (parent n) = successor_loop root r (Some a)"
      from rne have "samePtr r r" by (cases r) simp_all
      with successor_loop_step [OF find, of r]
      have "successor_loop root r (Some a) = successor_loop root ?T p" by simp
      moreover have "higher_loop ?T res k' = (res, res \<noteq> Nil)" for res
        unfolding hr using out by blast
      ultimately have "(\<forall>res. higher_loop ?T res k' = (res, res \<noteq> Nil)) \<and>
        successor_loop root n (parent n) = successor_loop root ?T q"
        using out par(1) by simp
      then show ?thesis by blast
    next
      assume "\<exists>m. (\<forall>res. higher_loop r res k' = (m, True)) \<and>
        successor_loop root n (parent n) = Some (m, True)"
      then obtain m where m: "\<forall>res. higher_loop r res k' = (m, True)"
        "successor_loop root n (parent n) = Some (m, True)"
        by blast
      have "higher_loop ?T res k' = (m, True)" for res
        unfolding hr using m(1) by blast
      with m(2) show ?thesis by blast
    qed
  qed
qed

lemma Successor_Higher:
  assumes "wf_tree t" "k' \<in> set (keys (Root t))" "Search t k' = (n, True)"
  shows "Successor t n = Some (Higher t k')"
proof -
  from assms(1) have inv: "bst (Root t)" "parents_ok None (Root t)" "distinct (addrs (Root t))"
    by (simp_all add: wf_tree_def invar_def)
  from assms(3) have sl: "search_loop (Root t) k' = (n, True)" by (simp add: Search_def)
  from search_found [OF inv(1) assms(2)] sl have nn: "n \<noteq> Nil" by auto
  then obtain a k v h s l r p where n: "n = Node a k v h s l r p" by (cases n) auto
  show ?thesis
  proof (cases "r = Nil")
    case False
    from minNode_total [OF False] obtain m where m: "minNode r = Some m" by blast
    with n have "minNode (right n) = Some m" by simp
    from higher_loop_right_subtree [OF inv(1) assms(2) sl this, of Nil]
    have "Higher t k' = (m, True)" by (simp add: Higher_def)
    with n False m show ?thesis by (simp add: Successor_def)
  next
    case True
    with n have rn: "right n = Nil" "parent n = p" by simp_all
    from True n have S: "Successor t n = successor_loop (Root t) n (parent n)"
      by (simp add: Successor_def)
    from successor_climb [OF inv(3) subset_refl inv(3) inv(1) inv(2) assms(2) sl rn(1)]
    show ?thesis
    proof
      assume "(\<forall>res. higher_loop (Root t) res k' = (res, res \<noteq> Nil)) \<and>
        successor_loop (Root t) n (parent n) = successor_loop (Root t) (Root t) None"
      with S show ?thesis by (simp add: Higher_def successor_loop_None)
    next
      assume "\<exists>m. (\<forall>res. higher_loop (Root t) res k' = (m, True)) \<and>
        successor_loop (Root t) n (parent n) = Some (m, True)"
      with S show ?thesis by (auto simp: Higher_def)
    qed
  qed
qed


text \<open>
  C8 (navigation consistency). On a well-formed tree and for a key \<open>k\<close> that is in the
  tree, \<^verbatim>\<open>Search\<close>, \<^verbatim>\<open>Floor\<close> and \<^verbatim>\<open>Ceiling\<close> find the same node, and
  \<^verbatim>\<open>Successor\<close> of that node returns what \<^verbatim>\<open>Higher(tree, k)\<close> returns: the same node
  when there is one, and not-found together. In particular, whenever both are found they
  are the same node.
\<close>

theorem navigation_consistency:
  assumes "wf_tree t" "k' \<in> set (map key (InOrder t))"
  shows "\<exists>n. Search t k' = (n, True) \<and> Floor t k' = (n, True) \<and> Ceiling t k' = (n, True) \<and>
           Successor t n = Some (Higher t k') \<and>
           (\<forall>x y. Higher t k' = (x, True) \<and> Successor t n = Some (y, True) \<longrightarrow> x = y)"
proof -
  from assms(1) have b: "bst (Root t)" by (simp add: wf_tree_def invar_def)
  from assms(2) have kin: "k' \<in> set (keys (Root t))" by (simp add: InOrder_inorder keys_def)
  from search_found [OF b kin] obtain n where n: "Search t k' = (n, True)"
    by (auto simp: Search_def)
  from floor_ceiling_search [OF b kin, of Nil] n
  have "Floor t k' = (n, True)" "Ceiling t k' = (n, True)"
    by (simp_all add: Floor_def Ceiling_def Search_def)
  moreover note S = Successor_Higher [OF assms(1) kin n]
  moreover from S have "\<forall>x y. Higher t k' = (x, True) \<and> Successor t n = Some (y, True) \<longrightarrow> x = y"
    by auto
  ultimately show ?thesis using n by blast
qed

theorem navigation_consistency_witness:
  "wf_tree tree123 \<and> 1 \<in> set (map key (InOrder tree123)) \<and>
   (\<exists>n. Search tree123 1 = (n, True) \<and> Floor tree123 1 = (n, True) \<and>
      Ceiling tree123 1 = (n, True) \<and> Successor tree123 n = Some (Higher tree123 1) \<and>
      (\<forall>x y. Higher tree123 1 = (x, True) \<and> Successor tree123 n = Some (y, True) \<longrightarrow> x = y)) \<and>
   Higher tree123 1 = (Root tree123, True) \<and>
   Successor tree123 (Node 0 1 10 1 1 Nil Nil (Some 1)) = Some (Root tree123, True)"
proof -
  have present: "1 \<in> set (map key (InOrder tree123))"
    by (simp add: InOrder_inorder)
  have "Higher tree123 1 = (Root tree123, True)"
    by (simp add: Higher_def)
  moreover have "Successor tree123 (Node 0 1 10 1 1 Nil Nil (Some 1)) = Some (Root tree123, True)"
    by (simp add: Successor_def successor_loop_step [where pn = "Root tree123"])
  ultimately show ?thesis
    using navigation_consistency [OF wf_tree123 present] wf_tree123 present by blast
qed

end
